theory Spec2Isabelle
  imports Main "HOL-Library.Multiset" "HOL-Library.Sublist" "HOL-Library.AList"
begin

section \<open>Wordle duel server: feedback evaluation and the room state machine\<close>

text \<open>
  The development embeds \<^verbatim>\<open>src/server/src/index.ts\<close>. JavaScript strings are modelled
  as \<^typ>\<open>string\<close>, read as ASCII text: one \<^typ>\<open>char\<close> is one UTF-16 code unit and
  one code point, so the \<^verbatim>\<open>for (const c of secret)\<close> iteration and the index reads
  \<^verbatim>\<open>secret[i]\<close> see the same characters. Text outside ASCII is not modelled: a
  statement that depends on the uppercase form of an arbitrary input carries the
  hypothesis that the input is ASCII. Calls of \<^verbatim>\<open>console.log\<close> are left out.
\<close>

subsection \<open>JavaScript values used by \<^verbatim>\<open>evaluate\<close>\<close>

datatype mark = Correct | Present | Absent

text \<open>A JavaScript number as far as \<^verbatim>\<open>evaluate\<close> needs it: an integer or NaN.\<close>

datatype jsnumber = Num int | NaN

text \<open>
  \<^verbatim>\<open>s[i]\<close> on a string: the character at index \<open>i\<close>, or \<^verbatim>\<open>undefined\<close>
  (\<open>None\<close>) out of range.
\<close>

definition char_at :: "string \<Rightarrow> nat \<Rightarrow> char option" where
  "char_at s i = (if i < length s then Some (s ! i) else None)"

text \<open>
  \<^verbatim>\<open>const count: Record<string, number>\<close>. The keys that are ever used are the results
  of index reads: a one-character string (\<open>Some c\<close>) or \<^verbatim>\<open>undefined\<close>, which as a
  property key is the name \<^verbatim>\<open>"undefined"\<close> (\<open>None\<close>). A missing property reads as
  \<^verbatim>\<open>undefined\<close> (\<open>None\<close>).
\<close>

type_synonym counts = "char option \<Rightarrow> jsnumber option"

text \<open>\<^verbatim>\<open>(count[c] || 0)\<close>: \<^verbatim>\<open>undefined\<close>, NaN and 0 are falsy.\<close>

definition or_zero :: "jsnumber option \<Rightarrow> int" where
  "or_zero v = (case v of Some (Num n) \<Rightarrow> n | _ \<Rightarrow> 0)"

text \<open>\<^verbatim>\<open>count[k]--\<close>: a missing property or NaN becomes NaN.\<close>

definition decrement :: "counts \<Rightarrow> char option \<Rightarrow> counts" where
  "decrement cnt k =
     cnt(k \<mapsto> (case cnt k of Some (Num n) \<Rightarrow> Num (n - 1) | _ \<Rightarrow> NaN))"

text \<open>\<^verbatim>\<open>count[k] > 0\<close>: false for \<^verbatim>\<open>undefined\<close> and NaN.\<close>

definition positive :: "jsnumber option \<Rightarrow> bool" where
  "positive v = (case v of Some (Num n) \<Rightarrow> 0 < n | _ \<Rightarrow> False)"

text \<open>
  \<^verbatim>\<open>secret.includes(guess[i])\<close>: a substring test; \<^verbatim>\<open>undefined\<close> is converted to
  the string \<^verbatim>\<open>"undefined"\<close>.
\<close>

definition str_includes :: "string \<Rightarrow> char option \<Rightarrow> bool" where
  "str_includes s k = (case k of Some c \<Rightarrow> c \<in> set s | None \<Rightarrow> sublist ''undefined'' s)"

text \<open>
  A JavaScript array with holes, as \<^verbatim>\<open>result\<close> is between the two loops: a read out
  of range or of a hole gives \<^verbatim>\<open>undefined\<close>, a write beyond the end extends the array.
\<close>

definition arr_get :: "'a option list \<Rightarrow> nat \<Rightarrow> 'a option" where
  "arr_get xs i = (if i < length xs then xs ! i else None)"

definition arr_set :: "'a option list \<Rightarrow> nat \<Rightarrow> 'a \<Rightarrow> 'a option list" where
  "arr_set xs i v =
     (if i < length xs then xs[i := Some v]
      else xs @ replicate (i - length xs) None @ [Some v])"

subsection \<open>\<^verbatim>\<open>evaluate\<close> (index.ts, lines 30 to 52)\<close>

text \<open>\<^verbatim>\<open>for (const c of secret) count[c] = (count[c] || 0) + 1;\<close>\<close>

definition count_letters :: "string \<Rightarrow> counts" where
  "count_letters secret =
     fold (\<lambda>c cnt. cnt(Some c \<mapsto> Num (or_zero (cnt (Some c)) + 1))) secret (\<lambda>_. None)"

text \<open>The body of the first loop, at index \<open>i\<close>, on the pair \<open>(result, cnt)\<close>.\<close>

definition exact_step ::
  "string \<Rightarrow> string \<Rightarrow> nat \<Rightarrow> mark option list \<times> counts \<Rightarrow> mark option list \<times> counts" where
  "exact_step guess secret i = (\<lambda>(result, cnt).
     if char_at guess i = char_at secret i
     then (arr_set result i Correct, decrement cnt (char_at guess i))
     else (result, cnt))"

text \<open>
  The body of the second loop. Every iteration leaves \<^verbatim>\<open>result[i]\<close> defined (it
  either was, and the loop continues, or it is assigned), so the array that is returned
  has no hole: the model collects the value of \<^verbatim>\<open>result[i]\<close> at the end of
  iteration \<open>i\<close> in the list \<open>out\<close>; \<open>result\<close> is the array as the first loop left it.
\<close>

definition partial_step ::
  "string \<Rightarrow> string \<Rightarrow> mark option list \<Rightarrow> nat \<Rightarrow> mark list \<times> counts \<Rightarrow> mark list \<times> counts" where
  "partial_step guess secret result i = (\<lambda>(out, cnt).
     case arr_get result i of
       Some m \<Rightarrow> (out @ [m], cnt)
     | None \<Rightarrow>
         if str_includes secret (char_at guess i) \<and> positive (cnt (char_at guess i))
         then (out @ [Present], decrement cnt (char_at guess i))
         else (out @ [Absent], cnt))"

definition evaluate :: "string \<Rightarrow> string \<Rightarrow> mark list" where
  "evaluate guess secret =
     (let (result, cnt) = fold (exact_step guess secret) [0..<5] ([], count_letters secret)
      in fst (fold (partial_step guess secret result) [0..<5] ([], cnt)))"

subsection \<open>The two-pass comparison as the specification words it\<close>

text \<open>
  Step 1 and pass 1 of the specification: the multiset of the letters of the secret, less
  one occurrence of the letter for each index where guess and secret agree. The argument
  is the list of the pairs \<open>(guess[i], secret[i])\<close>.
\<close>

definition spec_exact :: "(char \<times> char) list \<Rightarrow> char multiset" where
  "spec_exact ps = mset (map fst (filter (\<lambda>(g, s). g = s) ps))"

text \<open>
  Pass 2 of the specification, left to right over the pairs, with the remaining multiset
  \<open>m\<close>: an exact position is "correct"; another position is "present" if the secret
  contains the letter and its remaining count is positive, and the count is then
  decremented; otherwise it is "absent".
\<close>

fun spec_scan :: "string \<Rightarrow> (char \<times> char) list \<Rightarrow> char multiset \<Rightarrow> mark list" where
  "spec_scan secret [] m = []"
| "spec_scan secret ((g, s) # ps) m =
     (if g = s then Correct # spec_scan secret ps m
      else if g \<in> set secret \<and> 0 < count m g
           then Present # spec_scan secret ps (m - {#g#})
           else Absent # spec_scan secret ps m)"

definition spec_evaluate :: "string \<Rightarrow> string \<Rightarrow> mark list" where
  "spec_evaluate guess secret =
     spec_scan secret (zip guess secret) (mset secret - spec_exact (zip guess secret))"

text \<open>The multiset that \<^const>\<open>spec_scan\<close> is left with after a list of pairs.\<close>

fun spec_left :: "string \<Rightarrow> (char \<times> char) list \<Rightarrow> char multiset \<Rightarrow> char multiset" where
  "spec_left secret [] m = m"
| "spec_left secret ((g, s) # ps) m =
     (if g \<noteq> s \<and> g \<in> set secret \<and> 0 < count m g then spec_left secret ps (m - {#g#})
      else spec_left secret ps m)"

text \<open>
  The claim's wording of the remaining count of the letter \<open>c\<close> when the scan reaches
  position \<open>i\<close> of a row: the occurrences of \<open>c\<close> in the secret, less the exact positions
  that hold \<open>c\<close>, less the earlier positions that hold \<open>c\<close> and are marked "present".
\<close>

definition remaining_at :: "string \<Rightarrow> string \<Rightarrow> mark list \<Rightarrow> nat \<Rightarrow> char \<Rightarrow> int" where
  "remaining_at guess secret row i c =
     int (count (mset secret) c)
     - int (length (filter (\<lambda>j. guess ! j = secret ! j \<and> guess ! j = c) [0..<5]))
     - int (length (filter (\<lambda>j. row ! j = Present \<and> guess ! j = c) [0..<i]))"

text \<open>
  The object \<^verbatim>\<open>count\<close> represents the counting function \<open>f\<close> on the letters \<open>S\<close>:
  a property for each letter of \<open>S\<close>, and no other property.
\<close>

definition represents :: "char set \<Rightarrow> (char \<Rightarrow> int) \<Rightarrow> counts \<Rightarrow> bool" where
  "represents S f cnt \<longleftrightarrow>
     cnt None = None \<and> (\<forall>c. cnt (Some c) = (if c \<in> S then Some (Num (f c)) else None))"

subsection \<open>Strings: \<^verbatim>\<open>toUpperCase\<close> and the test \<^verbatim>\<open>/^[A-Z]{5}$/\<close>\<close>

text \<open>ASCII text: every character has a code below 128.\<close>

definition ascii :: "string \<Rightarrow> bool" where
  "ascii s \<longleftrightarrow> list_all (\<lambda>c. (of_char c :: nat) < 128) s"

text \<open>
  \<^verbatim>\<open>toUpperCase\<close> on ASCII text: it maps \<^verbatim>\<open>a\<close> to \<^verbatim>\<open>z\<close> (codes 97 to 122) to
  \<^verbatim>\<open>A\<close> to \<^verbatim>\<open>Z\<close> (codes 65 to 90) and leaves every other ASCII character as it is.
  On a character outside ASCII the JavaScript function may do otherwise (the sharp s
  becomes \<^verbatim>\<open>SS\<close>, the dotless i becomes \<^verbatim>\<open>I\<close>), which the definition does not
  follow: it says what the server does only for inputs that satisfy \<^const>\<open>ascii\<close>.
\<close>

definition upper_char :: "char \<Rightarrow> char" where
  "upper_char c =
     (if 97 \<le> (of_char c :: nat) \<and> (of_char c :: nat) \<le> 122
      then char_of ((of_char c :: nat) - 32) else c)"

definition toUpperCase :: "string \<Rightarrow> string" where
  "toUpperCase s = map upper_char s"

definition is_AZ :: "char \<Rightarrow> bool" where
  "is_AZ c \<longleftrightarrow> 65 \<le> (of_char c :: nat) \<and> (of_char c :: nat) \<le> 90"

text \<open>\<^verbatim>\<open>/^[A-Z]{5}$/.test(w)\<close>: exactly five characters, each in the range A to Z.\<close>

definition five_letters :: "string \<Rightarrow> bool" where
  "five_letters w \<longleftrightarrow> length w = 5 \<and> list_all is_AZ w"

text \<open>A letter of either case, and \<open>u\<close> being the capital of the character \<open>c\<close>.\<close>

definition is_letter :: "char \<Rightarrow> bool" where
  "is_letter c \<longleftrightarrow> is_AZ c \<or> (97 \<le> (of_char c :: nat) \<and> (of_char c :: nat) \<le> 122)"

definition capital_of :: "char \<Rightarrow> char \<Rightarrow> bool" where
  "capital_of u c \<longleftrightarrow> is_AZ u \<and> (u = c \<or> (of_char u :: nat) + 32 = of_char c)"

text \<open>\<^verbatim>\<open>a || b\<close> on socket ids: \<^verbatim>\<open>undefined\<close>, \<^verbatim>\<open>null\<close> and the empty string are falsy.\<close>

definition or_else :: "string option \<Rightarrow> string option \<Rightarrow> string option" where
  "or_else a b = (case a of None \<Rightarrow> b | Some x \<Rightarrow> if x = [] then b else Some x)"

text \<open>\<^verbatim>\<open>game.setterSocketId || ""\<close>: the id, or the empty string, which is no connection's id.\<close>

definition id_or_empty :: "string option \<Rightarrow> string" where
  "id_or_empty a = (case a of None \<Rightarrow> [] | Some x \<Rightarrow> x)"

text \<open>\<^verbatim>\<open>xs[0]\<close> on an array: \<^verbatim>\<open>undefined\<close> when the array is empty.\<close>

definition first_of :: "'a list \<Rightarrow> 'a option" where
  "first_of xs = (case xs of [] \<Rightarrow> None | x # _ \<Rightarrow> Some x)"

subsection \<open>Sessions, messages and the server state\<close>

datatype role = Setter | Guesser

record game =
  secret :: string
  guesses :: "string list"
  feedbacks :: "mark list list"
  players :: "role list"
  started :: bool
  setterSocketId :: "string option"
  locked :: bool

text \<open>
  The outbound messages. \<open>Guess_result\<close> carries \<^verbatim>\<open>guess\<close>, \<^verbatim>\<open>feedback\<close>,
  \<^verbatim>\<open>won\<close>, \<^verbatim>\<open>over\<close> and \<^verbatim>\<open>attempts\<close>.
\<close>

datatype message =
    Room_created string role
  | Room_joined string role
  | Opponent_joined
  | Game_started
  | Guess_result string "mark list" bool bool nat
  | Roles_swapped role
  | Error_message string

text \<open>
  What a handler does to the outside. \<open>Emit sid m\<close> is \<^verbatim>\<open>socket.emit\<close> on the
  connection \<open>sid\<close>, and \<^verbatim>\<open>io.to(id).emit\<close> for a socket id, which addresses that
  connection alone. \<open>Broadcast room members m\<close> is \<^verbatim>\<open>io.to(room).emit\<close>: \<open>members\<close> are
  the connections in the room at that moment, each of which receives \<open>m\<close>.
  \<open>Set_timeout ms room sid\<close> is the callback that \<^verbatim>\<open>request-role-swap\<close> schedules: after
  \<open>ms\<close> milliseconds it sends \<^verbatim>\<open>opponent-joined\<close> to \<open>sid\<close> if that connection is still
  in \<open>room\<close>; it changes no state.
\<close>

datatype effect =
    Emit string message
  | Broadcast string "string list" message
  | Set_timeout nat string "string option"

text \<open>
  The state: \<^verbatim>\<open>games\<close>, a \<^verbatim>\<open>Map\<close> from room code to session, in insertion order;
  \<^verbatim>\<open>io.sockets.adapter.rooms\<close>, the connections of each game room in joining order
  (the empty list when the room does not exist); \<^verbatim>\<open>io.sockets.sockets\<close>, the ids of the
  live connections.
\<close>

record server =
  games :: "(string \<times> game) list"
  rooms :: "string \<Rightarrow> string list"
  sockets :: "string list"

definition init :: server where
  "init = \<lparr>games = [], rooms = (\<lambda>_. []), sockets = []\<rparr>"

text \<open>\<^verbatim>\<open>socket.join(room)\<close>: the room is a set of ids, joining twice adds nothing.\<close>

definition socket_join :: "string \<Rightarrow> string \<Rightarrow> server \<Rightarrow> server" where
  "socket_join sid room st =
     st\<lparr>rooms := (rooms st)(room :=
           (if sid \<in> set (rooms st room) then rooms st room else rooms st room @ [sid]))\<rparr>"

text \<open>
  What socket.io does when a connection closes, before it fires \<^verbatim>\<open>disconnect\<close>: the
  socket leaves all its rooms and is removed from the live connections.
\<close>

definition socket_close :: "string \<Rightarrow> server \<Rightarrow> server" where
  "socket_close sid st =
     st\<lparr>rooms := (\<lambda>room. removeAll sid (rooms st room)), sockets := removeAll sid (sockets st)\<rparr>"

subsection \<open>The handlers (index.ts, lines 57 to 187)\<close>

text \<open>
  \<^verbatim>\<open>create\<close>. The result of \<^verbatim>\<open>createRoom()\<close>, which draws on \<^verbatim>\<open>Math.random\<close>, is the
  parameter \<open>room\<close>.
\<close>

definition on_create :: "string \<Rightarrow> string \<Rightarrow> server \<Rightarrow> server \<times> effect list" where
  "on_create sid room st =
     (let st1 = st\<lparr>games := AList.update room
                  \<lparr>secret = [], guesses = [], feedbacks = [], players = [Setter],
                   started = False, setterSocketId = Some sid, locked = False\<rparr> (games st)\<rparr>
      in (socket_join sid room st1, [Emit sid (Room_created room Setter)]))"

definition on_join :: "string \<Rightarrow> string \<Rightarrow> server \<Rightarrow> server \<times> effect list" where
  "on_join sid room st =
     (case map_of (games st) room of
        None \<Rightarrow> (st, [Emit sid (Error_message ''Room not found'')])
      | Some game \<Rightarrow>
          if Guesser \<in> set (players game) then (st, [Emit sid (Error_message ''Room full'')])
          else if locked game \<and> started game
          then (st, [Emit sid (Error_message ''Game already in progress'')])
          else
            let game1 = game\<lparr>players := players game @ [Guesser]\<rparr>;
                st1 = socket_join sid room st;
                setter = id_or_empty (setterSocketId game1);
                notify = (if setter \<in> set (sockets st1) \<and> setter \<in> set (rooms st1 room)
                          then [Emit setter Opponent_joined] else []);
                start = locked game1 \<and> \<not> started game1;
                game2 = (if start then game1\<lparr>started := True\<rparr> else game1)
            in (st1\<lparr>games := AList.update room game2 (games st1)\<rparr>,
                [Emit sid (Room_joined room Guesser)] @ notify @
                (if start then [Broadcast room (rooms st1 room) Game_started] else [])))"

definition on_set_word :: "string \<Rightarrow> string \<Rightarrow> string \<Rightarrow> server \<Rightarrow> server \<times> effect list" where
  "on_set_word sid room word st =
     (case map_of (games st) room of
        None \<Rightarrow> (st, [])
      | Some game \<Rightarrow>
          if secret game \<noteq> [] \<or> setterSocketId game \<noteq> Some sid then (st, [])
          else
            let w = toUpperCase word in
            if \<not> five_letters w then (st, [Emit sid (Error_message ''Invalid word'')])
            else
              let game1 = game\<lparr>secret := w, locked := True\<rparr>;
                  start = Guesser \<in> set (players game1);
                  game2 = (if start then game1\<lparr>started := True\<rparr> else game1)
              in (st\<lparr>games := AList.update room game2 (games st)\<rparr>,
                  (if start then [Broadcast room (rooms st room) Game_started] else [])))"

definition on_guess :: "string \<Rightarrow> string \<Rightarrow> string \<Rightarrow> server \<Rightarrow> server \<times> effect list" where
  "on_guess sid room guess st =
     (case map_of (games st) room of
        None \<Rightarrow> (st, [])
      | Some game \<Rightarrow>
          if secret game = [] \<or> \<not> started game then (st, [])
          else
            let g = toUpperCase guess in
            if \<not> five_letters g then (st, [])
            else
              let fb = evaluate g (secret game);
                  game1 = game\<lparr>guesses := guesses game @ [g], feedbacks := feedbacks game @ [fb]\<rparr>;
                  won = list_all (\<lambda>s. s = Correct) fb;
                  over = (won \<or> 6 \<le> length (guesses game1))
              in (st\<lparr>games := AList.update room game1 (games st)\<rparr>,
                  [Broadcast room (rooms st room)
                     (Guess_result g fb won over (length (guesses game1)))]))"

text \<open>
  The guess handler once more, with the builtin \<^verbatim>\<open>toUpperCase\<close> left open as the
  parameter \<open>up\<close>: what the handler does for any string depends on the builtin only
  through \<open>up\<close>.
\<close>

definition guess_with ::
  "(string \<Rightarrow> string) \<Rightarrow> string \<Rightarrow> string \<Rightarrow> string \<Rightarrow> server \<Rightarrow> server \<times> effect list" where
  "guess_with up sid room guess st =
     (case map_of (games st) room of
        None \<Rightarrow> (st, [])
      | Some game \<Rightarrow>
          if secret game = [] \<or> \<not> started game then (st, [])
          else
            let g = up guess in
            if \<not> five_letters g then (st, [])
            else
              let fb = evaluate g (secret game);
                  game1 = game\<lparr>guesses := guesses game @ [g], feedbacks := feedbacks game @ [fb]\<rparr>;
                  won = list_all (\<lambda>s. s = Correct) fb;
                  over = (won \<or> 6 \<le> length (guesses game1))
              in (st\<lparr>games := AList.update room game1 (games st)\<rparr>,
                  [Broadcast room (rooms st room)
                     (Guess_result g fb won over (length (guesses game1)))]))"

text \<open>
  \<^verbatim>\<open>request-role-swap\<close>. The destructuring \<^verbatim>\<open>[oldSetter, oldGuesser] = game.players\<close>
  runs only when \<^verbatim>\<open>players\<close> has at least two elements.
\<close>

definition on_request_role_swap :: "string \<Rightarrow> string \<Rightarrow> server \<Rightarrow> server \<times> effect list" where
  "on_request_role_swap sid room st =
     (case map_of (games st) room of
        None \<Rightarrow> (st, [])
      | Some game \<Rightarrow>
          if \<not> started game \<or> length (players game) < 2 then (st, [])
          else
            let oldSetter = players game ! 0;
                oldGuesser = players game ! 1;
                game1 = game\<lparr>players := [oldGuesser, oldSetter], secret := [], guesses := [],
                             feedbacks := [], started := False, locked := False\<rparr>;
                roomSockets = rooms st room;
                newSetterSocketId =
                  or_else (find (\<lambda>id. Some id \<noteq> setterSocketId game1) roomSockets)
                          (first_of roomSockets);
                game2 = game1\<lparr>setterSocketId := newSetterSocketId\<rparr>
            in (st\<lparr>games := AList.update room game2 (games st)\<rparr>,
                map (\<lambda>id. Emit id (Roles_swapped
                       (if Some id = newSetterSocketId then Setter else Guesser))) roomSockets
                @ [Set_timeout 800 room newSetterSocketId]))"

text \<open>
  The body of the loop of \<^verbatim>\<open>disconnect\<close> over \<^verbatim>\<open>games.entries()\<close>, for one entry, on
  the map \<open>gs\<close>. An iteration deletes or rewrites the entry it visits and no other.
\<close>

definition disconnect_entry ::
  "string \<Rightarrow> (string \<Rightarrow> string list) \<Rightarrow> string \<times> game \<Rightarrow> (string \<times> game) list
     \<Rightarrow> (string \<times> game) list" where
  "disconnect_entry sid members = (\<lambda>(room, game) gs.
     let socketsInRoom = members room in
     if length socketsInRoom = 0 then AList.delete room gs
     else if setterSocketId game = Some sid
     then AList.update room
            (game\<lparr>setterSocketId := or_else (find (\<lambda>id. id \<noteq> sid) socketsInRoom) None\<rparr>) gs
     else gs)"

definition on_disconnect :: "string \<Rightarrow> server \<Rightarrow> server \<times> effect list" where
  "on_disconnect sid st =
     (st\<lparr>games := fold (disconnect_entry sid (rooms st)) (games st) (games st)\<rparr>, [])"

subsection \<open>Dispatch and reachable states\<close>

text \<open>
  The inbound events. The handlers are registered per connection, so an event of a
  connection that is not live does nothing. \<open>Create sid room\<close> carries the code that
  \<^verbatim>\<open>createRoom()\<close> returns. \<open>Disconnect\<close> first closes the socket, then runs the handler.
\<close>

datatype action =
    Connect string
  | Create string string
  | Join string string
  | Set_word string string string
  | Guess string string string
  | Request_role_swap string string
  | Disconnect string

fun sender :: "action \<Rightarrow> string" where
  "sender (Connect sid) = sid"
| "sender (Create sid room) = sid"
| "sender (Join sid room) = sid"
| "sender (Set_word sid room word) = sid"
| "sender (Guess sid room guess) = sid"
| "sender (Request_role_swap sid room) = sid"
| "sender (Disconnect sid) = sid"

fun handle :: "action \<Rightarrow> server \<Rightarrow> server \<times> effect list" where
  "handle (Connect sid) st = (st, [])"
| "handle (Create sid room) st = on_create sid room st"
| "handle (Join sid room) st = on_join sid room st"
| "handle (Set_word sid room word) st = on_set_word sid room word st"
| "handle (Guess sid room guess) st = on_guess sid room guess st"
| "handle (Request_role_swap sid room) st = on_request_role_swap sid room st"
| "handle (Disconnect sid) st = on_disconnect sid (socket_close sid st)"

definition step :: "action \<Rightarrow> server \<Rightarrow> server \<times> effect list" where
  "step a st =
     (case a of
        Connect sid \<Rightarrow>
          if sid \<in> set (sockets st) then (st, []) else (st\<lparr>sockets := sockets st @ [sid]\<rparr>, [])
      | _ \<Rightarrow> if sender a \<in> set (sockets st) then handle a st else (st, []))"

text \<open>The state after a sequence of events.\<close>

fun run :: "action list \<Rightarrow> server \<Rightarrow> server" where
  "run [] st = st"
| "run (a # as) st = run as (fst (step a st))"

inductive reachable :: "server \<Rightarrow> bool" where
  reachable_init: "reachable init"
| reachable_step: "reachable st \<Longrightarrow> reachable (fst (step a st))"

subsection \<open>Predicates on effects, events and sessions\<close>

fun is_game_started :: "effect \<Rightarrow> bool" where
  "is_game_started (Emit sid m) = (m = Game_started)"
| "is_game_started (Broadcast room members m) = (m = Game_started)"
| "is_game_started (Set_timeout ms room sid) = False"

text \<open>The event is a \<^verbatim>\<open>create\<close> whose fresh code is \<open>room\<close>.\<close>

fun creates :: "string \<Rightarrow> action \<Rightarrow> bool" where
  "creates room (Create sid room') = (room' = room)"
| "creates room (Connect sid) = False"
| "creates room (Join sid room') = False"
| "creates room (Set_word sid room' word) = False"
| "creates room (Guess sid room' guess) = False"
| "creates room (Request_role_swap sid room') = False"
| "creates room (Disconnect sid) = False"

text \<open>The room has no session, or a session with no secret.\<close>

definition no_secret :: "server \<Rightarrow> string \<Rightarrow> bool" where
  "no_secret st room = (case map_of (games st) room of None \<Rightarrow> True | Some g \<Rightarrow> secret g = [])"

text \<open>The event is a \<^verbatim>\<open>set-word\<close> on \<open>room\<close>.\<close>

fun locks :: "string \<Rightarrow> action \<Rightarrow> bool" where
  "locks room (Set_word sid room' word) = (room' = room)"
| "locks room (Connect sid) = False"
| "locks room (Create sid room') = False"
| "locks room (Join sid room') = False"
| "locks room (Guess sid room' guess) = False"
| "locks room (Request_role_swap sid room') = False"
| "locks room (Disconnect sid) = False"

text \<open>
  What every session of a reachable state satisfies: the two histories have the same
  length, the seats are the setter alone or one setter and one guesser, and a started
  round has both seats filled.
\<close>

definition seats_ok :: "role list \<Rightarrow> bool" where
  "seats_ok ps \<longleftrightarrow> ps = [Setter] \<or> ps = [Setter, Guesser] \<or> ps = [Guesser, Setter]"

definition game_ok :: "game \<Rightarrow> bool" where
  "game_ok g \<longleftrightarrow>
     length (feedbacks g) = length (guesses g) \<and> seats_ok (players g) \<and>
     (if started g then length (players g) = 2 else True)"

definition games_ok :: "server \<Rightarrow> bool" where
  "games_ok st \<longleftrightarrow> list_all (\<lambda>(room, g). game_ok g) (games st) \<and> distinct (map fst (games st))"

subsection \<open>Example runs\<close>

text \<open>Alice creates the room, and locks the word before anyone has joined.\<close>

definition trace_open :: "action list" where
  "trace_open = [Connect ''alice'', Connect ''bob'', Create ''alice'' ''ROOM01'']"

definition trace_locked :: "action list" where
  "trace_locked = trace_open @ [Set_word ''alice'' ''ROOM01'' ''crane'']"

text \<open>Bob joins: the round is in progress.\<close>

definition trace_playing :: "action list" where
  "trace_playing = trace_locked @ [Join ''bob'' ''ROOM01'']"

text \<open>Bob has made six wrong guesses.\<close>

definition trace_six :: "action list" where
  "trace_six = trace_playing @ replicate 6 (Guess ''bob'' ''ROOM01'' ''SLATE'')"

text \<open>Bob guesses once more.\<close>

definition trace_seven :: "action list" where
  "trace_seven = trace_six @ [Guess ''bob'' ''ROOM01'' ''SLATE'']"

text \<open>Alice has left the running round: Bob is the only connection in the room.\<close>

definition trace_bob_alone :: "action list" where
  "trace_bob_alone = trace_playing @ [Disconnect ''alice'']"

section \<open>Properties\<close>

subsection \<open>Feedback evaluation\<close>

lemma spec_scan_append:
  "spec_scan se (ps @ qs) m = spec_scan se ps m @ spec_scan se qs (spec_left se ps m)"
  by (induction se ps m rule: spec_scan.induct) auto

lemma spec_left_append:
  "spec_left se (ps @ qs) m = spec_left se qs (spec_left se ps m)"
  by (induction se ps m rule: spec_left.induct) auto

lemma length_spec_scan [simp]: "length (spec_scan se ps m) = length ps"
  by (induction se ps m rule: spec_scan.induct) auto

lemma arr_get_arr_set: "arr_get (arr_set xs i v) j = (if j = i then Some v else arr_get xs j)"
  by (auto simp: arr_get_def arr_set_def nth_append)

lemma count_letters_fold:
  "represents (set xs) (\<lambda>c. int (count (mset xs) c)) cnt \<Longrightarrow>
   represents (set (xs @ ys)) (\<lambda>c. int (count (mset (xs @ ys)) c))
     (fold (\<lambda>c cnt. cnt(Some c \<mapsto> Num (or_zero (cnt (Some c)) + 1))) ys cnt)"
proof (induction ys arbitrary: xs cnt)
  case Nil
  then show ?case by simp
next
  case (Cons y ys)
  have "represents (set (xs @ [y])) (\<lambda>c. int (count (mset (xs @ [y])) c))
          (cnt(Some y \<mapsto> Num (or_zero (cnt (Some y)) + 1)))"
    using Cons.prems by (auto simp: represents_def or_zero_def)
  from Cons.IH [OF this] show ?case by simp
qed

lemma count_letters_represents: "represents (set se) (\<lambda>c. int (count (mset se) c)) (count_letters se)"
  using count_letters_fold [of "[]" "\<lambda>_. None" se] by (simp add: represents_def count_letters_def)

lemma spec_exact_snoc:
  "spec_exact (ps @ [(g, s)]) = (if g = s then add_mset g (spec_exact ps) else spec_exact ps)"
  by (simp add: spec_exact_def)

lemma exact_fold:
  assumes "k \<le> length gu" "k \<le> length se"
  shows "\<exists>res cnt. fold (exact_step gu se) [0..<k] ([], count_letters se) = (res, cnt) \<and>
           represents (set se) (\<lambda>c. int (count (mset se) c) - int (count (spec_exact (take k (zip gu se))) c)) cnt \<and>
           (\<forall>j. arr_get res j = (if j < k \<and> gu ! j = se ! j then Some Correct else None))"
  using assms
proof (induction k)
  case 0
  then show ?case using count_letters_represents [of se] by (simp add: spec_exact_def arr_get_def)
next
  case (Suc k)
  then obtain res cnt where st: "fold (exact_step gu se) [0..<k] ([], count_letters se) = (res, cnt)"
    and c: "represents (set se) (\<lambda>c. int (count (mset se) c) - int (count (spec_exact (take k (zip gu se))) c)) cnt"
    and r: "\<forall>j. arr_get res j = (if j < k \<and> gu ! j = se ! j then Some Correct else None)"
    by auto
  have k: "k < length gu" "k < length se" using Suc.prems by auto
  then have tk: "take (Suc k) (zip gu se) = take k (zip gu se) @ [(gu ! k, se ! k)]"
    by (simp add: take_Suc_conv_app_nth)
  have f: "fold (exact_step gu se) [0..<Suc k] ([], count_letters se) = exact_step gu se k (res, cnt)"
    by (simp add: st)
  show ?case
  proof (cases "gu ! k = se ! k")
    case True
    then have m: "se ! k \<in> set se" using k by simp
    have e: "exact_step gu se k (res, cnt) = (arr_set res k Correct, decrement cnt (Some (se ! k)))"
      using True k by (simp add: exact_step_def char_at_def)
    have "represents (set se) (\<lambda>c. int (count (mset se) c) - int (count (spec_exact (take (Suc k) (zip gu se))) c))
            (decrement cnt (Some (se ! k)))"
      using c m True by (auto simp: tk spec_exact_snoc represents_def decrement_def)
    moreover have "\<forall>j. arr_get (arr_set res k Correct) j = (if j < Suc k \<and> gu ! j = se ! j then Some Correct else None)"
      using r True by (auto simp: arr_get_arr_set less_Suc_eq)
    ultimately show ?thesis unfolding f e by blast
  next
    case False
    have e: "exact_step gu se k (res, cnt) = (res, cnt)"
      using False k by (simp add: exact_step_def char_at_def)
    have "represents (set se) (\<lambda>c. int (count (mset se) c) - int (count (spec_exact (take (Suc k) (zip gu se))) c)) cnt"
      using c False by (simp add: tk spec_exact_snoc)
    moreover have "\<forall>j. arr_get res j = (if j < Suc k \<and> gu ! j = se ! j then Some Correct else None)"
      using r False by (auto simp: less_Suc_eq)
    ultimately show ?thesis unfolding f e by blast
  qed
qed

lemma spec_exact_subset: "spec_exact (zip gu se) \<subseteq># mset se"
proof -
  have "map fst (filter (\<lambda>(g, s). g = s) ps) = map snd (filter (\<lambda>(g, s). g = s) ps)" for ps :: "(char \<times> char) list"
    by (induction ps) auto
  then have "spec_exact (zip gu se) = mset (map snd (filter (\<lambda>(g, s). g = s) (zip gu se)))"
    unfolding spec_exact_def by (rule arg_cong)
  also have "\<dots> \<subseteq># mset (map snd (zip gu se))"
    by (simp add: image_mset_subseteq_mono)
  also have "\<dots> \<subseteq># mset se"
  proof -
    have "mset (take n xs) \<subseteq># mset xs" for n and xs :: string
      by (metis append_take_drop_id mset_append mset_subset_eq_add_left)
    then show ?thesis by (simp add: map_snd_zip_take)
  qed
  finally show ?thesis .
qed

lemma partial_fold:
  assumes "k \<le> length gu" "k \<le> length se"
    and r: "\<forall>j. arr_get res j = (if j < n \<and> gu ! j = se ! j then Some Correct else None)"
    and n: "k \<le> n"
    and c: "represents (set se) (\<lambda>c. int (count m c)) cnt"
  shows "\<exists>cnt'. fold (partial_step gu se res) [0..<k] ([], cnt) =
            (spec_scan se (take k (zip gu se)) m, cnt') \<and>
           represents (set se) (\<lambda>c. int (count (spec_left se (take k (zip gu se)) m) c)) cnt'"
  using assms(1,2) n
proof (induction k)
  case 0
  then show ?case using c by simp
next
  case (Suc k)
  then obtain cnt' where st: "fold (partial_step gu se res) [0..<k] ([], cnt) =
            (spec_scan se (take k (zip gu se)) m, cnt')"
    and c': "represents (set se) (\<lambda>c. int (count (spec_left se (take k (zip gu se)) m) c)) cnt'"
    by auto
  have k: "k < length gu" "k < length se" "k < n" using Suc.prems by auto
  then have tk: "take (Suc k) (zip gu se) = take k (zip gu se) @ [(gu ! k, se ! k)]"
    by (simp add: take_Suc_conv_app_nth)
  let ?out = "spec_scan se (take k (zip gu se)) m"
  let ?m = "spec_left se (take k (zip gu se)) m"
  have f: "fold (partial_step gu se res) [0..<Suc k] ([], cnt) = partial_step gu se res k (?out, cnt')"
    by (simp add: st)
  have pos: "positive (cnt' (Some c)) \<longleftrightarrow> c \<in> set se \<and> 0 < count ?m c" for c
    using c' by (auto simp: represents_def positive_def)
  show ?case
  proof (cases "gu ! k = se ! k")
    case True
    then have "arr_get res k = Some Correct" using r k by simp
    then have e: "partial_step gu se res k (?out, cnt') = (?out @ [Correct], cnt')"
      by (simp add: partial_step_def)
    show ?thesis unfolding f e using c' True
      by (simp add: tk spec_scan_append spec_left_append)
  next
    case False
    then have g: "arr_get res k = None" using r k by simp
    show ?thesis
    proof (cases "se ! k \<noteq> gu ! k \<and> gu ! k \<in> set se \<and> 0 < count ?m (gu ! k)")
      case True
      then have e: "partial_step gu se res k (?out, cnt') = (?out @ [Present], decrement cnt' (Some (gu ! k)))"
        using g k pos by (simp add: partial_step_def char_at_def str_includes_def)
      have "represents (set se) (\<lambda>c. int (count (?m - {#gu ! k#}) c)) (decrement cnt' (Some (gu ! k)))"
        using c' True by (auto simp: represents_def decrement_def)
      then show ?thesis unfolding f e using True False
        by (simp add: tk spec_scan_append spec_left_append)
    next
      case F: False
      then have e: "partial_step gu se res k (?out, cnt') = (?out @ [Absent], cnt')"
        using g k pos False by (auto simp: partial_step_def char_at_def str_includes_def)
      show ?thesis unfolding f e using F False c'
        by (auto simp: tk spec_scan_append spec_left_append)
    qed
  qed
qed

lemma evaluate_spec_evaluate:
  assumes "length gu = 5" "length se = 5"
  shows "evaluate gu se = spec_evaluate gu se"
proof -
  obtain res cnt where st: "fold (exact_step gu se) [0..<5] ([], count_letters se) = (res, cnt)"
    and c: "represents (set se) (\<lambda>c. int (count (mset se) c) - int (count (spec_exact (take 5 (zip gu se))) c)) cnt"
    and r: "\<forall>j. arr_get res j = (if j < 5 \<and> gu ! j = se ! j then Some Correct else None)"
    using exact_fold [of 5 gu se] assms by auto
  let ?m = "mset se - spec_exact (zip gu se)"
  have "int (count (mset se) c) - int (count (spec_exact (zip gu se)) c) = int (count ?m c)" for c
    using mset_subset_eq_count [OF spec_exact_subset, of gu se c] by simp
  then have c2: "represents (set se) (\<lambda>c. int (count ?m c)) cnt"
    using c assms by simp
  obtain cnt' where "fold (partial_step gu se res) [0..<5] ([], cnt) =
            (spec_scan se (take 5 (zip gu se)) ?m, cnt')"
    using partial_fold [of 5 gu se res 5 ?m cnt] r c2 assms by auto
  then show ?thesis using st assms by (simp add: evaluate_def spec_evaluate_def)
qed


lemma spec_scan_bound:
  "length (filter (\<lambda>(g, mk). g = c \<and> mk \<noteq> Absent) (zip (map fst ps) (spec_scan se ps m)))
     \<le> count (spec_exact ps) c + count m c"
proof (induction se ps m rule: spec_scan.induct)
  case (1 se m)
  then show ?case by simp
next
  case (2 se g s ps m)
  let ?n = "\<lambda>m. length (filter (\<lambda>(g, mk). g = c \<and> mk \<noteq> Absent)
                (zip (map fst ps) (spec_scan se ps m)))"
  show ?case
  proof (cases "g = s")
    case True
    with 2 have "?n m \<le> count (spec_exact ps) c + count m c" by simp
    with True show ?thesis by (simp add: spec_exact_def)
  next
    case False
    show ?thesis
    proof (cases "g \<in> set se \<and> 0 < count m g")
      case True
      with False 2 have "?n (m - {#g#}) \<le> count (spec_exact ps) c + count (m - {#g#}) c"
        by simp
      then have ih: "?n (m - {#g#}) + (if g = c then 1 else 0) \<le> count (spec_exact ps) c + count m c"
      proof (cases "g = c")
        case eq: True
        then obtain k where k: "count m c = Suc k"
          using True by (cases "count m c") auto
        assume "?n (m - {#g#}) \<le> count (spec_exact ps) c + count (m - {#g#}) c"
        then show ?thesis using eq by (simp add: k)
      next
        case neq: False
        assume "?n (m - {#g#}) \<le> count (spec_exact ps) c + count (m - {#g#}) c"
        then show ?thesis using neq by simp
      qed
      have sc: "spec_scan se ((g, s) # ps) m = Present # spec_scan se ps (m - {#g#})"
        using True False by simp
      have se: "spec_exact ((g, s) # ps) = spec_exact ps"
        using False by (simp add: spec_exact_def)
      show ?thesis unfolding sc se using ih by (simp split: if_splits)
    next
      case F: False
      with False 2 have "?n m \<le> count (spec_exact ps) c + count m c" by simp
      with F False show ?thesis by (auto simp: spec_exact_def)
    qed
  qed
qed

lemma spec_scan_nth:
  assumes "i < length ps"
  shows "spec_scan se ps m ! i =
     (if fst (ps ! i) = snd (ps ! i) then Correct
      else if fst (ps ! i) \<in> set se \<and> 0 < count (spec_left se (take i ps) m) (fst (ps ! i))
      then Present else Absent)"
proof -
  obtain g s where gs: "ps ! i = (g, s)" by (cases "ps ! i")
  have "ps = take i ps @ (g, s) # drop (Suc i) ps"
    using assms gs by (metis id_take_nth_drop)
  then have "spec_scan se ps m = spec_scan se (take i ps) m
      @ spec_scan se ((g, s) # drop (Suc i) ps) (spec_left se (take i ps) m)"
    by (metis spec_scan_append)
  moreover have "length (spec_scan se (take i ps) m) = i" using assms by simp
  ultimately have "spec_scan se ps m ! i =
      spec_scan se ((g, s) # drop (Suc i) ps) (spec_left se (take i ps) m) ! 0"
    by (simp add: nth_append)
  then show ?thesis by (simp add: gs)
qed

lemma spec_left_count:
  assumes "i \<le> length ps"
  shows "int (count (spec_left se (take i ps) m) c) =
     int (count m c)
     - int (length (filter (\<lambda>j. spec_scan se ps m ! j = Present \<and> fst (ps ! j) = c) [0..<i]))"
  using assms
proof (induction i)
  case 0
  then show ?case by simp
next
  case (Suc i)
  then have i: "i < length ps" by simp
  obtain g s where gs: "ps ! i = (g, s)" by (cases "ps ! i")
  let ?m = "spec_left se (take i ps) m"
  have t: "take (Suc i) ps = take i ps @ [(g, s)]"
    using i gs by (simp add: take_Suc_conv_app_nth)
  have n: "spec_scan se ps m ! i = Present \<longleftrightarrow> g \<noteq> s \<and> g \<in> set se \<and> 0 < count ?m g"
    using spec_scan_nth [OF i, of se m] by (simp add: gs)
  have l: "spec_left se (take (Suc i) ps) m =
      (if g \<noteq> s \<and> g \<in> set se \<and> 0 < count ?m g then ?m - {#g#} else ?m)"
    by (simp add: t spec_left_append)
  show ?case
  proof (cases "g \<noteq> s \<and> g \<in> set se \<and> 0 < count ?m g")
    case True
    then obtain k where k: "count ?m g = Suc k" by (cases "count ?m g") auto
    show ?thesis using Suc.IH i True n k
      by (cases "g = c") (auto simp: l gs)
  next
    case False
    then show ?thesis using Suc.IH i n by (auto simp: l gs)
  qed
qed

lemma spec_left_subset: "spec_left se ps m \<subseteq># m"
proof (induction se ps m rule: spec_left.induct)
  case (1 se m)
  then show ?case by simp
next
  case (2 se g s ps m)
  have "m - {#g#} \<subseteq># m" by simp
  with 2 show ?case by (auto intro: subset_mset.order_trans)
qed

lemma spec_exact_count:
  "count (spec_exact ps) c =
     length (filter (\<lambda>j. fst (ps ! j) = snd (ps ! j) \<and> fst (ps ! j) = c) [0..<length ps])"
proof (induction ps rule: rev_induct)
  case Nil
  then show ?case by (simp add: spec_exact_def)
next
  case (snoc p ps)
  obtain g s where p: "p = (g, s)" by (cases p)
  have "filter (\<lambda>j. fst ((ps @ [p]) ! j) = snd ((ps @ [p]) ! j) \<and> fst ((ps @ [p]) ! j) = c) [0..<length ps]
      = filter (\<lambda>j. fst (ps ! j) = snd (ps ! j) \<and> fst (ps ! j) = c) [0..<length ps]"
    by (rule filter_cong) (auto simp: nth_append)
  then show ?case using snoc by (auto simp: p spec_exact_snoc)
qed

lemma evaluate_remaining:
  assumes "length gu = 5" and "length se = 5" and "i < 5"
  shows "evaluate gu se ! i =
     (if gu ! i = se ! i then Correct
      else if 0 < remaining_at gu se (evaluate gu se) i (gu ! i) then Present else Absent)"
proof -
  let ?ps = "zip gu se"
  let ?m = "mset se - spec_exact ?ps"
  have eq: "evaluate gu se = spec_scan se ?ps ?m"
    using assms by (simp add: evaluate_spec_evaluate spec_evaluate_def)
  have len: "length ?ps = 5" using assms by simp
  have nth: "fst (?ps ! j) = gu ! j \<and> snd (?ps ! j) = se ! j" if "j < 5" for j
    using that assms by simp
  have f1: "filter (\<lambda>j. fst (?ps ! j) = snd (?ps ! j) \<and> fst (?ps ! j) = c) [0..<5] =
        filter (\<lambda>j. gu ! j = se ! j \<and> gu ! j = c) [0..<5]" for c
    by (rule filter_cong) (auto simp: nth)
  have f2: "filter (\<lambda>j. spec_scan se ?ps ?m ! j = Present \<and> fst (?ps ! j) = c) [0..<i] =
        filter (\<lambda>j. spec_scan se ?ps ?m ! j = Present \<and> gu ! j = c) [0..<i]" for c
    using assms(3) by (intro filter_cong) (auto simp: nth)
  have "int (count ?m c) = int (count (mset se) c) - int (count (spec_exact ?ps) c)" for c
    using mset_subset_eq_count [OF spec_exact_subset, of gu se c] by simp
  then have r: "int (count (spec_left se (take i ?ps) ?m) c) = remaining_at gu se (evaluate gu se) i c" for c
    using spec_left_count [of i ?ps se ?m c] assms len
    by (simp add: remaining_at_def eq spec_exact_count f1 f2)
  have "spec_left se (take i ?ps) ?m \<subseteq># mset se"
    by (rule subset_mset.order_trans [OF spec_left_subset]) simp
  then have sub: "0 < count (spec_left se (take i ?ps) ?m) c \<Longrightarrow> c \<in> set se" for c
    by (auto dest: mset_subset_eqD)
  have key: "0 < remaining_at gu se (evaluate gu se) i c \<longleftrightarrow>
      0 < count (spec_left se (take i ?ps) ?m) c" for c
    by (simp add: r [symmetric])
  have i': "i < length ?ps" using assms by simp
  have "spec_scan se ?ps ?m ! i =
     (if gu ! i = se ! i then Correct
      else if gu ! i \<in> set se \<and> 0 < count (spec_left se (take i ?ps) ?m) (gu ! i)
      then Present else Absent)"
    using spec_scan_nth [OF i', of se ?m] nth [OF assms(3)] by simp
  also have "\<dots> = (if gu ! i = se ! i then Correct
      else if 0 < remaining_at gu se (evaluate gu se) i (gu ! i) then Present else Absent)"
    using sub [of "gu ! i"] key [of "gu ! i"] by auto
  finally show ?thesis by (simp add: eq)
qed

text \<open>
  Claim C1. For guess and secret of five characters each (uppercase letters or not),
  \<^const>\<open>evaluate\<close> returns the row of the two-pass comparison of the specification: five
  marks, position \<open>i\<close> "correct" exactly when \<open>guess[i] = secret[i]\<close>, and another position
  "present" exactly when the count of its letter in the secret, less the exact positions
  and the earlier "present" positions of that letter, is positive, and "absent" otherwise.
  Hence for every letter the positions of the guess that hold it and are marked "correct"
  or "present" are at most as many as its occurrences in the secret. For the secret ALLOY
  and the guess LLAMA the row is present, correct, present, absent, absent.
\<close>

theorem evaluate_canonical:
  assumes "length gu = 5" and "length se = 5"
  shows "evaluate gu se = spec_evaluate gu se
       \<and> length (evaluate gu se) = 5
       \<and> (\<forall>i<5. evaluate gu se ! i =
             (if gu ! i = se ! i then Correct
              else if 0 < remaining_at gu se (evaluate gu se) i (gu ! i) then Present
              else Absent))
       \<and> (\<forall>c. length (filter (\<lambda>(g, mk). g = c \<and> mk \<noteq> Absent) (zip gu (evaluate gu se)))
               \<le> count (mset se) c)
       \<and> evaluate ''LLAMA'' ''ALLOY'' = [Present, Correct, Present, Absent, Absent]"
proof -
  have eq: "evaluate gu se = spec_evaluate gu se"
    using assms by (rule evaluate_spec_evaluate)
  have len: "length (evaluate gu se) = 5"
    using assms by (simp add: eq spec_evaluate_def)
  have corr: "\<forall>i<5. evaluate gu se ! i =
             (if gu ! i = se ! i then Correct
              else if 0 < remaining_at gu se (evaluate gu se) i (gu ! i) then Present
              else Absent)"
    using assms by (simp add: evaluate_remaining)
  have bound: "length (filter (\<lambda>(g, mk). g = c \<and> mk \<noteq> Absent) (zip gu (evaluate gu se)))
               \<le> count (mset se) c" for c
  proof -
    let ?ps = "zip gu se"
    have "map fst ?ps = gu" using assms by simp
    then have "length (filter (\<lambda>(g, mk). g = c \<and> mk \<noteq> Absent) (zip gu (evaluate gu se)))
        \<le> count (spec_exact ?ps) c + count (mset se - spec_exact ?ps) c"
      using spec_scan_bound [of c ?ps se "mset se - spec_exact ?ps"]
      by (simp add: eq spec_evaluate_def)
    also have "\<dots> = count (mset se) c"
      using mset_subset_eq_count [OF spec_exact_subset, of gu se c] by simp
    finally show ?thesis .
  qed
  have ex: "evaluate ''LLAMA'' ''ALLOY'' = [Present, Correct, Present, Absent, Absent]"
    by code_simp
  show ?thesis using eq len corr bound ex by blast
qed

theorem evaluate_canonical_witness:
  "length ''LLAMA'' = 5 \<and> length ''ALLOY'' = 5
   \<and> evaluate ''LLAMA'' ''ALLOY'' = spec_evaluate ''LLAMA'' ''ALLOY''
   \<and> length (evaluate ''LLAMA'' ''ALLOY'') = 5"
proof -
  have a: "length ''LLAMA'' = 5" and b: "length ''ALLOY'' = 5" by simp_all
  from evaluate_canonical [OF a b] show ?thesis using a b by blast
qed

subsection \<open>Joining, locking the word and guessing\<close>

lemma upper_char_idem: "upper_char (upper_char c) = upper_char c"
proof (cases "97 \<le> (of_char c :: nat) \<and> (of_char c :: nat) \<le> 122")
  case True
  then have u: "upper_char c = char_of ((of_char c :: nat) - 32)"
    by (simp add: upper_char_def)
  have "(of_char c :: nat) - 32 < 256" using True by arith
  then have "(of_char (char_of ((of_char c :: nat) - 32)) :: nat) = of_char c - 32"
    by simp
  moreover have "(of_char c :: nat) - 32 < 97" using True by arith
  ultimately have "\<not> (97 \<le> (of_char (upper_char c) :: nat) \<and> (of_char (upper_char c) :: nat) \<le> 122)"
    by (simp add: u)
  then show ?thesis by (subst upper_char_def) auto
next
  case False
  then have "upper_char c = c" by (auto simp: upper_char_def)
  then show ?thesis by simp
qed

lemma toUpperCase_idem: "toUpperCase (toUpperCase s) = toUpperCase s"
  by (simp add: toUpperCase_def upper_char_idem)

lemma upper_char_AZ_iff: "is_AZ (upper_char c) \<longleftrightarrow> is_letter c"
proof (cases "97 \<le> (of_char c :: nat) \<and> (of_char c :: nat) \<le> 122")
  case True
  then have u: "upper_char c = char_of ((of_char c :: nat) - 32)"
    by (simp add: upper_char_def)
  have "(of_char c :: nat) - 32 < 256" using True by arith
  then have "(of_char (char_of ((of_char c :: nat) - 32)) :: nat) = of_char c - 32"
    by simp
  then show ?thesis using True by (auto simp: u is_AZ_def is_letter_def)
next
  case False
  then have "upper_char c = c" by (auto simp: upper_char_def)
  then show ?thesis using False by (auto simp: is_letter_def)
qed

lemma upper_char_capital: "is_letter c \<Longrightarrow> capital_of (upper_char c) c"
proof (cases "97 \<le> (of_char c :: nat) \<and> (of_char c :: nat) \<le> 122")
  case True
  then have u: "upper_char c = char_of ((of_char c :: nat) - 32)"
    by (simp add: upper_char_def)
  have "(of_char c :: nat) - 32 < 256" using True by arith
  then have "(of_char (char_of ((of_char c :: nat) - 32)) :: nat) = of_char c - 32"
    by simp
  then show ?thesis using True by (auto simp: u capital_of_def is_AZ_def)
next
  case False
  assume "is_letter c"
  moreover have "upper_char c = c" using False by (auto simp: upper_char_def)
  ultimately show ?thesis using False by (auto simp: capital_of_def is_letter_def)
qed

lemma five_letters_upper_iff:
  "five_letters (toUpperCase w) \<longleftrightarrow> length w = 5 \<and> list_all is_letter w"
  by (simp add: five_letters_def toUpperCase_def list_all_iff upper_char_AZ_iff)

lemma toUpperCase_capitals:
  "list_all is_letter w \<Longrightarrow> list_all2 capital_of (toUpperCase w) w"
  by (induction w) (auto simp: toUpperCase_def upper_char_capital)

lemma on_guess_guess_with: "on_guess = guess_with toUpperCase"
  by (intro ext) (simp add: on_guess_def guess_with_def)

lemma on_guess_accept:
  assumes "map_of (games st) room = Some game" and "secret game \<noteq> []" and "started game"
    and "five_letters (toUpperCase g)"
  shows "on_guess sid room g st =
           (st\<lparr>games := AList.update room
                 (game\<lparr>guesses := guesses game @ [toUpperCase g],
                        feedbacks := feedbacks game @ [evaluate (toUpperCase g) (secret game)]\<rparr>)
                 (games st)\<rparr>,
            [Broadcast room (rooms st room)
               (Guess_result (toUpperCase g) (evaluate (toUpperCase g) (secret game))
                  (list_all (\<lambda>s. s = Correct) (evaluate (toUpperCase g) (secret game)))
                  (list_all (\<lambda>s. s = Correct) (evaluate (toUpperCase g) (secret game))
                     \<or> 6 \<le> Suc (length (guesses game)))
                  (Suc (length (guesses game))))])"
  using assms by (simp add: on_guess_def Let_def)

text \<open>
  Claim C10. The guess handler is case-insensitive. For an ASCII guess string it returns
  the same state and the same messages for the string and for its uppercase form. On a
  session with a secret and started, a guess of five letters of either case is accepted:
  its uppercase form is five letters A to Z, each the capital of the letter typed, the
  handler appends it with the feedback row of the uppercase form against the secret, and
  broadcasts both to the room with \<open>won\<close>, \<open>over\<close> and the count; the uppercase guess gives
  the same. For any string, with the builtin left open: if uppercasing the uppercase form
  changes nothing, the handler does the same on the string and on its uppercase form. In
  the running round on CRANE the guess sLaTe is stored and broadcast as SLATE with the row
  absent, absent, correct, absent, correct.
\<close>

theorem guess_case_insensitive:
  "(ascii g \<longrightarrow> on_guess sid room g st = on_guess sid room (toUpperCase g) st)
   \<and> (\<forall>game. map_of (games st) room = Some game \<and> secret game \<noteq> [] \<and> started game
         \<and> length g = 5 \<and> list_all is_letter g \<longrightarrow>
        five_letters (toUpperCase g) \<and> list_all2 capital_of (toUpperCase g) g
      \<and> on_guess sid room g st =
           (st\<lparr>games := AList.update room
                 (game\<lparr>guesses := guesses game @ [toUpperCase g],
                        feedbacks := feedbacks game @ [evaluate (toUpperCase g) (secret game)]\<rparr>)
                 (games st)\<rparr>,
            [Broadcast room (rooms st room)
               (Guess_result (toUpperCase g) (evaluate (toUpperCase g) (secret game))
                  (list_all (\<lambda>s. s = Correct) (evaluate (toUpperCase g) (secret game)))
                  (list_all (\<lambda>s. s = Correct) (evaluate (toUpperCase g) (secret game))
                     \<or> 6 \<le> Suc (length (guesses game)))
                  (Suc (length (guesses game))))])
      \<and> on_guess sid room (toUpperCase g) st = on_guess sid room g st)
   \<and> (up (up g) = up g \<longrightarrow> guess_with up sid room g st = guess_with up sid room (up g) st)
   \<and> on_guess ''bob'' ''ROOM01'' ''sLaTe'' (run trace_playing init) =
       ((run trace_playing init)\<lparr>games :=
           [(''ROOM01'', \<lparr>secret = ''CRANE'', guesses = [''SLATE''],
                          feedbacks = [[Absent, Absent, Correct, Absent, Correct]],
                          players = [Setter, Guesser], started = True,
                          setterSocketId = Some ''alice'', locked = True\<rparr>)]\<rparr>,
        [Broadcast ''ROOM01'' [''alice'', ''bob'']
           (Guess_result ''SLATE'' [Absent, Absent, Correct, Absent, Correct] False False 1)])"
proof -
  have same: "on_guess sid room g st = on_guess sid room (toUpperCase g) st"
  proof (cases "map_of (games st) room")
    case None
    then show ?thesis by (simp add: on_guess_def)
  next
    case (Some game)
    then show ?thesis by (simp add: on_guess_def Let_def toUpperCase_idem)
  qed
  have accept: "five_letters (toUpperCase g) \<and> list_all2 capital_of (toUpperCase g) g
      \<and> on_guess sid room g st =
           (st\<lparr>games := AList.update room
                 (game\<lparr>guesses := guesses game @ [toUpperCase g],
                        feedbacks := feedbacks game @ [evaluate (toUpperCase g) (secret game)]\<rparr>)
                 (games st)\<rparr>,
            [Broadcast room (rooms st room)
               (Guess_result (toUpperCase g) (evaluate (toUpperCase g) (secret game))
                  (list_all (\<lambda>s. s = Correct) (evaluate (toUpperCase g) (secret game)))
                  (list_all (\<lambda>s. s = Correct) (evaluate (toUpperCase g) (secret game))
                     \<or> 6 \<le> Suc (length (guesses game)))
                  (Suc (length (guesses game))))])
      \<and> on_guess sid room (toUpperCase g) st = on_guess sid room g st"
    if s: "map_of (games st) room = Some game" "secret game \<noteq> []" "started game"
      and w: "length g = 5" "list_all is_letter g" for game
  proof -
    have f: "five_letters (toUpperCase g)" using w by (simp add: five_letters_upper_iff)
    have c: "list_all2 capital_of (toUpperCase g) g" using w(2) by (rule toUpperCase_capitals)
    from f c on_guess_accept [OF s f, of sid] same show ?thesis by simp
  qed
  have par: "guess_with up sid room g st = guess_with up sid room (up g) st"
    if "up (up g) = up g"
  proof (cases "map_of (games st) room")
    case None
    then show ?thesis by (simp add: guess_with_def)
  next
    case (Some game)
    then show ?thesis using that by (simp add: guess_with_def Let_def)
  qed
  have ex: "on_guess ''bob'' ''ROOM01'' ''sLaTe'' (run trace_playing init) =
       ((run trace_playing init)\<lparr>games :=
           [(''ROOM01'', \<lparr>secret = ''CRANE'', guesses = [''SLATE''],
                          feedbacks = [[Absent, Absent, Correct, Absent, Correct]],
                          players = [Setter, Guesser], started = True,
                          setterSocketId = Some ''alice'', locked = True\<rparr>)]\<rparr>,
        [Broadcast ''ROOM01'' [''alice'', ''bob'']
           (Guess_result ''SLATE'' [Absent, Absent, Correct, Absent, Correct] False False 1)])"
  proof -
    let ?g = "\<lparr>secret = ''CRANE'', guesses = [], feedbacks = [], players = [Setter, Guesser],
             started = True, setterSocketId = Some ''alice'', locked = True\<rparr>"
    have k: "games (run trace_playing init) = [(''ROOM01'', ?g)]" by code_simp
    then have h: "map_of (games (run trace_playing init)) ''ROOM01'' = Some ?g" by simp
    have m: "rooms (run trace_playing init) ''ROOM01'' = [''alice'', ''bob'']" by code_simp
    have u: "toUpperCase ''sLaTe'' = ''SLATE''" by code_simp
    have f: "five_letters (toUpperCase ''sLaTe'')" by code_simp
    have e: "evaluate ''SLATE'' ''CRANE'' = [Absent, Absent, Correct, Absent, Correct]"
      by code_simp
    show ?thesis
      unfolding on_guess_accept [OF h _ _ f, simplified]
      by (simp add: u e k m)
  qed
  from same accept par ex show ?thesis by blast
qed

theorem guess_case_insensitive_witness:
  "ascii ''cRaNe'' \<and> length ''cRaNe'' = 5 \<and> list_all is_letter ''cRaNe''
   \<and> toUpperCase ''cRaNe'' = ''CRANE''
   \<and> map_of (games (run trace_playing init)) ''ROOM01'' =
       Some \<lparr>secret = ''CRANE'', guesses = [], feedbacks = [], players = [Setter, Guesser],
             started = True, setterSocketId = Some ''alice'', locked = True\<rparr>
   \<and> on_guess ''bob'' ''ROOM01'' ''cRaNe'' (run trace_playing init) =
       on_guess ''bob'' ''ROOM01'' ''CRANE'' (run trace_playing init)
   \<and> map_of (games (fst (on_guess ''bob'' ''ROOM01'' ''cRaNe'' (run trace_playing init)))) ''ROOM01'' =
       Some \<lparr>secret = ''CRANE'', guesses = [''CRANE''],
             feedbacks = [[Correct, Correct, Correct, Correct, Correct]],
             players = [Setter, Guesser], started = True, setterSocketId = Some ''alice'',
             locked = True\<rparr>
   \<and> snd (on_guess ''bob'' ''ROOM01'' ''cRaNe'' (run trace_playing init)) =
       [Broadcast ''ROOM01'' [''alice'', ''bob'']
          (Guess_result ''CRANE'' [Correct, Correct, Correct, Correct, Correct] True True 1)]
   \<and> guess_with toUpperCase ''bob'' ''ROOM01'' ''cRaNe'' (run trace_playing init) =
       guess_with toUpperCase ''bob'' ''ROOM01'' (toUpperCase ''cRaNe'') (run trace_playing init)"
proof -
  let ?g = "\<lparr>secret = ''CRANE'', guesses = [], feedbacks = [], players = [Setter, Guesser],
             started = True, setterSocketId = Some ''alice'', locked = True\<rparr>"
  let ?st = "run trace_playing init"
  have a: "ascii ''cRaNe''" by code_simp
  have l: "length ''cRaNe'' = 5 \<and> list_all is_letter ''cRaNe''" by code_simp
  have u: "toUpperCase ''cRaNe'' = ''CRANE''" by code_simp
  have h: "map_of (games ?st) ''ROOM01'' = Some ?g" by code_simp
  have m: "rooms ?st ''ROOM01'' = [''alice'', ''bob'']" by code_simp
  have e: "evaluate ''CRANE'' ''CRANE'' = [Correct, Correct, Correct, Correct, Correct]"
    by code_simp
  have i: "toUpperCase (toUpperCase ''cRaNe'') = toUpperCase ''cRaNe''" by (simp add: u) code_simp
  have g: "secret ?g \<noteq> []" "started ?g" by simp_all
  note th = guess_case_insensitive [where g = "''cRaNe''" and sid = "''bob''"
      and room = "''ROOM01''" and st = ?st and up = toUpperCase]
  have same: "on_guess ''bob'' ''ROOM01'' ''cRaNe'' ?st = on_guess ''bob'' ''ROOM01'' ''CRANE'' ?st"
    using th a by (simp add: u)
  have res: "on_guess ''bob'' ''ROOM01'' ''cRaNe'' ?st =
           (?st\<lparr>games := AList.update ''ROOM01''
                 (?g\<lparr>guesses := guesses ?g @ [toUpperCase ''cRaNe''],
                      feedbacks := feedbacks ?g @ [evaluate (toUpperCase ''cRaNe'') (secret ?g)]\<rparr>)
                 (games ?st)\<rparr>,
            [Broadcast ''ROOM01'' (rooms ?st ''ROOM01'')
               (Guess_result (toUpperCase ''cRaNe'') (evaluate (toUpperCase ''cRaNe'') (secret ?g))
                  (list_all (\<lambda>s. s = Correct) (evaluate (toUpperCase ''cRaNe'') (secret ?g)))
                  (list_all (\<lambda>s. s = Correct) (evaluate (toUpperCase ''cRaNe'') (secret ?g))
                     \<or> 6 \<le> Suc (length (guesses ?g)))
                  (Suc (length (guesses ?g))))])"
    using th h g l by blast
  have stored: "map_of (games (fst (on_guess ''bob'' ''ROOM01'' ''cRaNe'' ?st))) ''ROOM01'' =
       Some \<lparr>secret = ''CRANE'', guesses = [''CRANE''],
             feedbacks = [[Correct, Correct, Correct, Correct, Correct]],
             players = [Setter, Guesser], started = True, setterSocketId = Some ''alice'',
             locked = True\<rparr>"
    unfolding res by (simp add: update_conv' u e)
  have sent: "snd (on_guess ''bob'' ''ROOM01'' ''cRaNe'' ?st) =
       [Broadcast ''ROOM01'' [''alice'', ''bob'']
          (Guess_result ''CRANE'' [Correct, Correct, Correct, Correct, Correct] True True 1)]"
    unfolding res by (simp add: u e m)
  have par: "guess_with toUpperCase ''bob'' ''ROOM01'' ''cRaNe'' ?st =
       guess_with toUpperCase ''bob'' ''ROOM01'' (toUpperCase ''cRaNe'') ?st"
    using th i by blast
  from a l u h same stored sent par show ?thesis by blast
qed

text \<open>
  Claim C4. On a session with \<open>locked\<close> and \<open>started\<close> both true, a join by any
  connection leaves the state as it is and sends one error to the joining connection
  alone: "Room full" when the guesser seat is taken, "Game already in progress" otherwise.
\<close>

theorem join_in_progress_refused:
  assumes "map_of (games st) room = Some game" and "locked game" and "started game"
  shows "on_join sid room st =
           (st, [Emit sid (Error_message
                   (if Guesser \<in> set (players game) then ''Room full''
                    else ''Game already in progress''))])"
  using assms by (simp add: on_join_def)


theorem join_in_progress_refused_witness:
  "map_of (games (run trace_playing init)) ''ROOM01'' =
     Some \<lparr>secret = ''CRANE'', guesses = [], feedbacks = [], players = [Setter, Guesser],
           started = True, setterSocketId = Some ''alice'', locked = True\<rparr>
   \<and> on_join ''carol'' ''ROOM01'' (run trace_playing init) =
       (run trace_playing init, [Emit ''carol'' (Error_message ''Room full'')])"
proof -
  have h: "map_of (games (run trace_playing init)) ''ROOM01'' =
     Some \<lparr>secret = ''CRANE'', guesses = [], feedbacks = [], players = [Setter, Guesser],
           started = True, setterSocketId = Some ''alice'', locked = True\<rparr>"
    by code_simp
  show ?thesis using join_in_progress_refused [OF h, of "''carol''"] h by simp
qed

text \<open>
  Claim C5. On a session with \<open>locked\<close> true, \<open>started\<close> false and no guesser seated, a
  join succeeds: the joiner is seated as guesser, is told so and enters the room,
  \<open>started\<close> becomes true, and exactly one \<^verbatim>\<open>game-started\<close> is emitted, a broadcast to
  the room, whose members now include the joiner.
\<close>

theorem join_locked_starts_game:
  assumes "map_of (games st) room = Some game"
    and "locked game" and "\<not> started game" and "Guesser \<notin> set (players game)"
  shows "map_of (games (fst (on_join sid room st))) room =
           Some (game\<lparr>players := players game @ [Guesser], started := True\<rparr>)
       \<and> Emit sid (Room_joined room Guesser) \<in> set (snd (on_join sid room st))
       \<and> filter is_game_started (snd (on_join sid room st)) =
           [Broadcast room (rooms (fst (on_join sid room st)) room) Game_started]
       \<and> set (rooms (fst (on_join sid room st)) room) = insert sid (set (rooms st room))"
  using assms by (auto simp: on_join_def Let_def socket_join_def update_conv')

theorem join_locked_starts_game_witness:
  "map_of (games (run trace_locked init)) ''ROOM01'' =
     Some \<lparr>secret = ''CRANE'', guesses = [], feedbacks = [], players = [Setter],
           started = False, setterSocketId = Some ''alice'', locked = True\<rparr>
   \<and> filter is_game_started (snd (on_join ''bob'' ''ROOM01'' (run trace_locked init))) =
       [Broadcast ''ROOM01'' (rooms (fst (on_join ''bob'' ''ROOM01'' (run trace_locked init))) ''ROOM01'')
          Game_started]"
proof -
  have h: "map_of (games (run trace_locked init)) ''ROOM01'' =
     Some \<lparr>secret = ''CRANE'', guesses = [], feedbacks = [], players = [Setter],
           started = False, setterSocketId = Some ''alice'', locked = True\<rparr>"
    by code_simp
  show ?thesis using join_locked_starts_game [OF h, of "''bob''"] h by simp
qed



lemma partial_fold_length:
  "length (fst (fold (partial_step gu se res) xs (out, cnt))) = length out + length xs"
proof (induction xs arbitrary: out cnt)
  case Nil
  then show ?case by simp
next
  case (Cons i xs)
  obtain out' cnt' where s: "partial_step gu se res i (out, cnt) = (out', cnt')"
    by (cases "partial_step gu se res i (out, cnt)")
  then have "length out' = Suc (length out)"
    by (auto simp: partial_step_def split: option.splits if_splits)
  with Cons.IH [of out' cnt'] s show ?case by simp
qed

lemma length_evaluate: "length (evaluate gu se) = 5"
  by (simp add: evaluate_def partial_fold_length split: prod.splits)

lemma all_correct_iff:
  assumes "length fb = 5"
  shows "list_all (\<lambda>s. s = Correct) fb \<longleftrightarrow> fb = replicate 5 Correct"
proof
  assume "list_all (\<lambda>s. s = Correct) fb"
  with assms show "fb = replicate 5 Correct"
    by (intro replicate_eqI) (auto simp: list_all_iff)
next
  assume "fb = replicate 5 Correct"
  then show "list_all (\<lambda>s. s = Correct) fb" by (simp add: list_all_iff)
qed

lemma reachable_run: "reachable st \<Longrightarrow> reachable (run acts st)"
  by (induction acts arbitrary: st) (auto intro: reachable_step)

text \<open>
  Claim C3, as amended. For a guess that is five letters once put in uppercase, on a
  session with a secret and started, the handler appends the uppercase guess and its
  feedback row of five marks, and broadcasts to the connections in the room one
  \<^verbatim>\<open>guess-result\<close> with the guess, the row, \<open>won\<close> (true exactly when all five marks are
  "correct"), \<open>over\<close> (true exactly when \<open>won\<close> or the appended guess is the sixth or a
  later one, never earlier) and the number of guesses made. For the secret CRANE the guess
  CRANE gives five "correct", \<open>won\<close> and \<open>over\<close>.
\<close>

theorem guess_result_broadcast:
  assumes "map_of (games st) room = Some game" and "secret game \<noteq> []" and "started game"
    and "five_letters (toUpperCase guess)"
  shows "on_guess sid room guess st =
           (st\<lparr>games := AList.update room
                 (game\<lparr>guesses := guesses game @ [toUpperCase guess],
                        feedbacks := feedbacks game @ [evaluate (toUpperCase guess) (secret game)]\<rparr>)
                 (games st)\<rparr>,
            [Broadcast room (rooms st room)
               (Guess_result (toUpperCase guess) (evaluate (toUpperCase guess) (secret game))
                  (evaluate (toUpperCase guess) (secret game) = replicate 5 Correct)
                  (evaluate (toUpperCase guess) (secret game) = replicate 5 Correct
                     \<or> 6 \<le> Suc (length (guesses game)))
                  (Suc (length (guesses game))))])
       \<and> length (evaluate (toUpperCase guess) (secret game)) = 5
       \<and> snd (on_guess ''bob'' ''ROOM01'' ''CRANE'' (run trace_playing init)) =
           [Broadcast ''ROOM01'' [''alice'', ''bob'']
              (Guess_result ''CRANE'' [Correct, Correct, Correct, Correct, Correct] True True 1)]"
proof -
  have ex: "snd (on_guess ''bob'' ''ROOM01'' ''CRANE'' (run trace_playing init)) =
           [Broadcast ''ROOM01'' [''alice'', ''bob'']
              (Guess_result ''CRANE'' [Correct, Correct, Correct, Correct, Correct] True True 1)]"
    by code_simp
  have len: "length (evaluate (toUpperCase guess) (secret game)) = 5"
    by (rule length_evaluate)
  have "on_guess sid room guess st =
           (st\<lparr>games := AList.update room
                 (game\<lparr>guesses := guesses game @ [toUpperCase guess],
                        feedbacks := feedbacks game @ [evaluate (toUpperCase guess) (secret game)]\<rparr>)
                 (games st)\<rparr>,
            [Broadcast room (rooms st room)
               (Guess_result (toUpperCase guess) (evaluate (toUpperCase guess) (secret game))
                  (evaluate (toUpperCase guess) (secret game) = replicate 5 Correct)
                  (evaluate (toUpperCase guess) (secret game) = replicate 5 Correct
                     \<or> 6 \<le> Suc (length (guesses game)))
                  (Suc (length (guesses game))))])"
    using assms by (simp add: on_guess_def Let_def all_correct_iff [OF len])
  with len ex show ?thesis by blast
qed

theorem guess_result_broadcast_witness:
  "map_of (games (run trace_playing init)) ''ROOM01'' =
     Some \<lparr>secret = ''CRANE'', guesses = [], feedbacks = [], players = [Setter, Guesser],
           started = True, setterSocketId = Some ''alice'', locked = True\<rparr>
   \<and> five_letters (toUpperCase ''slate'')
   \<and> snd (on_guess ''bob'' ''ROOM01'' ''slate'' (run trace_playing init)) =
       [Broadcast ''ROOM01'' (rooms (run trace_playing init) ''ROOM01'')
          (Guess_result (toUpperCase ''slate'') (evaluate (toUpperCase ''slate'') ''CRANE'')
             (evaluate (toUpperCase ''slate'') ''CRANE'' = replicate 5 Correct)
             (evaluate (toUpperCase ''slate'') ''CRANE'' = replicate 5 Correct \<or> 6 \<le> Suc 0)
             (Suc 0))]"
proof -
  have h: "map_of (games (run trace_playing init)) ''ROOM01'' =
     Some \<lparr>secret = ''CRANE'', guesses = [], feedbacks = [], players = [Setter, Guesser],
           started = True, setterSocketId = Some ''alice'', locked = True\<rparr>"
    by code_simp
  have w: "five_letters (toUpperCase ''slate'')" by code_simp
  show ?thesis
    using guess_result_broadcast [OF h _ _ w, of "''bob''"] h w by simp
qed

text \<open>
  Claim C3 as stated fails: after six wrong guesses the round is still started, the
  seventh wrong guess is processed, and its \<^verbatim>\<open>guess-result\<close> has \<open>over\<close> true although
  \<open>won\<close> is false and the appended guess is not the sixth.
\<close>

theorem seventh_guess_counterexample:
  "reachable (run trace_six init)
   \<and> map_option (\<lambda>g. length (guesses g)) (map_of (games (run trace_six init)) ''ROOM01'') = Some 6
   \<and> snd (on_guess ''bob'' ''ROOM01'' ''SLATE'' (run trace_six init)) =
       [Broadcast ''ROOM01'' [''alice'', ''bob'']
          (Guess_result ''SLATE'' [Absent, Absent, Correct, Absent, Correct] False True 7)]"
proof -
  have "reachable (run trace_six init)"
    by (rule reachable_run) (rule reachable_init)
  moreover have "map_option (\<lambda>g. length (guesses g)) (map_of (games (run trace_six init)) ''ROOM01'') = Some 6"
    by code_simp
  moreover have "snd (on_guess ''bob'' ''ROOM01'' ''SLATE'' (run trace_six init)) =
       [Broadcast ''ROOM01'' [''alice'', ''bob'']
          (Guess_result ''SLATE'' [Absent, Absent, Correct, Absent, Correct] False True 7)]"
    by code_simp
  ultimately show ?thesis by blast
qed

subsection \<open>Reachable states\<close>

lemma list_all_update:
  "list_all P al \<Longrightarrow> P (k, v) \<Longrightarrow> list_all P (AList.update k v al)"
  by (induction al) auto

lemma list_all_delete: "list_all P al \<Longrightarrow> list_all P (AList.delete k al)"
  by (induction al) auto

lemma list_all_map_of:
  "list_all P al \<Longrightarrow> map_of al k = Some v \<Longrightarrow> P (k, v)"
  by (auto simp: list_all_iff dest: map_of_SomeD)

lemma games_ok_lookup:
  "games_ok st \<Longrightarrow> map_of (games st) room = Some game \<Longrightarrow> game_ok game"
  using list_all_map_of [of "\<lambda>(room, g). game_ok g" "games st" room game]
  by (simp add: games_ok_def)

lemma games_ok_update:
  "games st' = AList.update room game (games st) \<Longrightarrow> games_ok st \<Longrightarrow> game_ok game \<Longrightarrow>
   games_ok st'"
  by (simp add: games_ok_def list_all_update distinct_update)

lemma games_ok_same: "games st' = games st \<Longrightarrow> games_ok st \<Longrightarrow> games_ok st'"
  by (simp add: games_ok_def)

lemma games_ok_rooms [simp]: "games_ok (st\<lparr>rooms := r\<rparr>) = games_ok st"
  by (simp add: games_ok_def)

lemma games_ok_sockets [simp]: "games_ok (st\<lparr>sockets := r\<rparr>) = games_ok st"
  by (simp add: games_ok_def)

lemma disconnect_fold_ok:
  "list_all (\<lambda>(room, g). game_ok g) es \<Longrightarrow> list_all (\<lambda>(room, g). game_ok g) acc \<Longrightarrow>
   distinct (map fst acc) \<Longrightarrow>
   list_all (\<lambda>(room, g). game_ok g) (fold (disconnect_entry sid mem) es acc)
   \<and> distinct (map fst (fold (disconnect_entry sid mem) es acc))"
proof (induction es arbitrary: acc)
  case Nil
  then show ?case by simp
next
  case (Cons e es)
  obtain room g where e: "e = (room, g)" by (cases e)
  have ok: "game_ok (g\<lparr>setterSocketId := x\<rparr>)" for x
    using Cons.prems(1) by (simp add: e game_ok_def)
  have "list_all (\<lambda>(room, g). game_ok g) (disconnect_entry sid mem e acc)
        \<and> distinct (map fst (disconnect_entry sid mem e acc))"
    using Cons.prems ok
    by (simp add: e disconnect_entry_def Let_def list_all_update list_all_delete
          distinct_update distinct_delete)
  then show ?case using Cons.IH Cons.prems(1) by simp
qed

lemma on_create_ok: "games_ok st \<Longrightarrow> games_ok (fst (on_create sid room st))"
proof -
  assume ok: "games_ok st"
  let ?g = "\<lparr>secret = [], guesses = [], feedbacks = [], players = [Setter],
             started = False, setterSocketId = Some sid, locked = False\<rparr>"
  have "games (fst (on_create sid room st)) = AList.update room ?g (games st)"
    by (simp add: on_create_def socket_join_def Let_def)
  moreover have "game_ok ?g" by (simp add: game_ok_def seats_ok_def)
  ultimately show ?thesis using ok by (auto intro: games_ok_update)
qed

lemma on_join_ok: "games_ok st \<Longrightarrow> games_ok (fst (on_join sid room st))"
proof (cases "map_of (games st) room")
  case None
  then show "games_ok st \<Longrightarrow> ?thesis" by (simp add: on_join_def)
next
  case (Some game)
  assume ok: "games_ok st"
  then have g: "game_ok game" using Some by (rule games_ok_lookup)
  show ?thesis
  proof (cases "Guesser \<in> set (players game) \<or> (locked game \<and> started game)")
    case True
    then have "on_join sid room st = (st, snd (on_join sid room st))"
      using Some by (auto simp: on_join_def)
    then show ?thesis using ok by (metis fst_conv)
  next
    case False
    then have "players game = [Setter]"
      using g by (auto simp: game_ok_def seats_ok_def)
    then have g': "game_ok (game\<lparr>players := players game @ [Guesser], started := b\<rparr>)" for b
      using g by (simp add: game_ok_def seats_ok_def)
    have "games (fst (on_join sid room st)) =
            AList.update room (game\<lparr>players := players game @ [Guesser],
               started := started game \<or> locked game\<rparr>) (games st)"
      using Some False by (auto simp: on_join_def Let_def socket_join_def)
    then show ?thesis using ok g' by (rule games_ok_update)
  qed
qed

lemma on_set_word_ok: "games_ok st \<Longrightarrow> games_ok (fst (on_set_word sid room word st))"
proof (cases "map_of (games st) room")
  case None
  then show "games_ok st \<Longrightarrow> ?thesis" by (simp add: on_set_word_def)
next
  case (Some game)
  assume ok: "games_ok st"
  then have g: "game_ok game" using Some by (rule games_ok_lookup)
  have "Guesser \<in> set (players game) \<Longrightarrow> length (players game) = 2"
    using g by (auto simp: game_ok_def seats_ok_def)
  then have g': "game_ok (game\<lparr>secret := w, locked := True,
                 started := started game \<or> Guesser \<in> set (players game)\<rparr>)" for w
    using g by (auto simp: game_ok_def split: if_splits)
  let ?w = "toUpperCase word"
  show ?thesis
  proof (cases "secret game = [] \<and> setterSocketId game = Some sid \<and> five_letters ?w")
    case True
    then have "games (fst (on_set_word sid room word st)) =
            AList.update room (game\<lparr>secret := ?w, locked := True,
                 started := started game \<or> Guesser \<in> set (players game)\<rparr>) (games st)"
      using Some by (auto simp: on_set_word_def Let_def)
    then show ?thesis using ok g' by (rule games_ok_update)
  next
    case False
    then have "games (fst (on_set_word sid room word st)) = games st"
      using Some by (auto simp: on_set_word_def Let_def)
    then show ?thesis using ok by (rule games_ok_same)
  qed
qed

lemma on_guess_ok: "games_ok st \<Longrightarrow> games_ok (fst (on_guess sid room guess st))"
proof (cases "map_of (games st) room")
  case None
  then show "games_ok st \<Longrightarrow> ?thesis" by (simp add: on_guess_def)
next
  case (Some game)
  assume ok: "games_ok st"
  then have g: "game_ok game" using Some by (rule games_ok_lookup)
  then have g': "game_ok (game\<lparr>guesses := guesses game @ [w], feedbacks := feedbacks game @ [fb]\<rparr>)" for w fb
    by (simp add: game_ok_def)
  let ?w = "toUpperCase guess"
  show ?thesis
  proof (cases "secret game \<noteq> [] \<and> started game \<and> five_letters ?w")
    case True
    then have "games (fst (on_guess sid room guess st)) =
            AList.update room (game\<lparr>guesses := guesses game @ [?w],
               feedbacks := feedbacks game @ [evaluate ?w (secret game)]\<rparr>) (games st)"
      using Some by (auto simp: on_guess_def Let_def)
    then show ?thesis using ok g' by (rule games_ok_update)
  next
    case False
    then have "games (fst (on_guess sid room guess st)) = games st"
      using Some by (auto simp: on_guess_def Let_def)
    then show ?thesis using ok by (rule games_ok_same)
  qed
qed

lemma on_request_role_swap_ok:
  "games_ok st \<Longrightarrow> games_ok (fst (on_request_role_swap sid room st))"
proof (cases "map_of (games st) room")
  case None
  then show "games_ok st \<Longrightarrow> ?thesis" by (simp add: on_request_role_swap_def)
next
  case (Some game)
  assume ok: "games_ok st"
  then have g: "game_ok game" using Some by (rule games_ok_lookup)
  show ?thesis
  proof (cases "started game")
    case True
    then have "seats_ok [players game ! 1, players game ! 0]" and l: "length (players game) = 2"
      using g by (auto simp: game_ok_def seats_ok_def)
    then have g': "game_ok (game\<lparr>players := [players game ! 1, players game ! 0], secret := [],
                   guesses := [], feedbacks := [], started := False, locked := False,
                   setterSocketId := x\<rparr>)" for x
      by (simp add: game_ok_def)
    let ?x = "or_else (find (\<lambda>id. Some id \<noteq> setterSocketId game) (rooms st room))
                (first_of (rooms st room))"
    have "games (fst (on_request_role_swap sid room st)) =
            AList.update room (game\<lparr>players := [players game ! 1, players game ! 0], secret := [],
                   guesses := [], feedbacks := [], started := False, locked := False,
                   setterSocketId := ?x\<rparr>) (games st)"
      using Some True l by (simp add: on_request_role_swap_def Let_def)
    then show ?thesis using ok g' by (rule games_ok_update)
  next
    case False
    then have "games (fst (on_request_role_swap sid room st)) = games st"
      using Some by (simp add: on_request_role_swap_def)
    then show ?thesis using ok by (rule games_ok_same)
  qed
qed

lemma on_disconnect_ok: "games_ok st \<Longrightarrow> games_ok (fst (on_disconnect sid st))"
  using disconnect_fold_ok [of "games st" "games st" sid "rooms st"]
  by (simp add: on_disconnect_def games_ok_def)

lemma step_ok: "games_ok st \<Longrightarrow> games_ok (fst (step a st))"
proof (cases a)
  case (Disconnect sid)
  assume "games_ok st"
  then have "games_ok (socket_close sid st)" by (simp add: socket_close_def)
  then show ?thesis using Disconnect \<open>games_ok st\<close>
    by (simp add: step_def on_disconnect_ok)
qed (simp_all add: step_def on_create_ok on_join_ok on_set_word_ok on_guess_ok
       on_request_role_swap_ok)

lemma reachable_games_ok: "reachable st \<Longrightarrow> games_ok st"
proof (induction rule: reachable.induct)
  case reachable_init
  then show ?case by (simp add: games_ok_def init_def)
next
  case (reachable_step st a)
  then show ?case by (simp add: step_ok)
qed

subsection \<open>The role swap\<close>

lemma update_keys_present:
  "map_of al k = Some v \<Longrightarrow> map fst (AList.update k w al) = map fst al"
  by (auto simp: update_keys dest: map_of_SomeD intro: rev_image_eqI)

lemma five_letters_nonempty: "five_letters w \<Longrightarrow> w \<noteq> []"
  by (auto simp: five_letters_def)

lemma swap_success:
  assumes "map_of (games st) room = Some game" and "started game" and "length (players game) = 2"
  shows "on_request_role_swap sid room st =
     (st\<lparr>games := AList.update room
        (game\<lparr>players := rev (players game), secret := [], guesses := [], feedbacks := [],
              started := False, locked := False,
              setterSocketId := or_else (find (\<lambda>id. Some id \<noteq> setterSocketId game) (rooms st room))
                                        (first_of (rooms st room))\<rparr>) (games st)\<rparr>,
      map (\<lambda>id. Emit id (Roles_swapped
             (if Some id = or_else (find (\<lambda>id. Some id \<noteq> setterSocketId game) (rooms st room))
                                   (first_of (rooms st room)) then Setter else Guesser)))
          (rooms st room)
      @ [Set_timeout 800 room (or_else (find (\<lambda>id. Some id \<noteq> setterSocketId game) (rooms st room))
                                        (first_of (rooms st room)))])"
proof -
  obtain p q where pq: "players game = [p, q]"
    using assms(3) by (cases "players game"; simp; cases "tl (players game)"; auto)
  show ?thesis using assms pq by (simp add: on_request_role_swap_def Let_def)
qed

text \<open>
  Claim C7. In every reachable state \<^verbatim>\<open>request-role-swap\<close> changes nothing and sends
  nothing unless the session exists, is started and has exactly two seats filled. On
  success the session is as before except that the two seats are exchanged (setter,
  guesser becomes guesser, setter and vice versa), \<open>secret\<close>, \<open>guesses\<close> and \<open>feedbacks\<close>
  are empty, \<open>locked\<close> and \<open>started\<close> are false, and the setter connection is reassigned; the
  room codes, the rooms and the connections are unchanged. With two connections in the
  room, one of them the setter, the other connection becomes the setter and is told so,
  and the previous setter is told that it is now the guesser.
\<close>

theorem role_swap:
  assumes "reachable st"
  shows "(\<not> (\<exists>game. map_of (games st) room = Some game \<and> started game
               \<and> length (players game) = 2) \<longrightarrow>
            on_request_role_swap sid room st = (st, []))
       \<and> (\<forall>game. map_of (games st) room = Some game \<and> started game
               \<and> length (players game) = 2 \<longrightarrow>
            (\<exists>x. map_of (games (fst (on_request_role_swap sid room st))) room =
                   Some (game\<lparr>players := rev (players game), secret := [], guesses := [],
                           feedbacks := [], started := False, locked := False,
                           setterSocketId := x\<rparr>))
          \<and> (players game = [Setter, Guesser] \<or> players game = [Guesser, Setter])
          \<and> map fst (games (fst (on_request_role_swap sid room st))) = map fst (games st)
          \<and> rooms (fst (on_request_role_swap sid room st)) = rooms st
          \<and> sockets (fst (on_request_role_swap sid room st)) = sockets st
          \<and> (\<forall>a b. (rooms st room = [a, b] \<or> rooms st room = [b, a]) \<and> a \<noteq> b \<and> b \<noteq> []
                   \<and> setterSocketId game = Some a \<longrightarrow>
                map_option setterSocketId
                  (map_of (games (fst (on_request_role_swap sid room st))) room) = Some (Some b)
              \<and> Emit a (Roles_swapped Guesser) \<in> set (snd (on_request_role_swap sid room st))
              \<and> Emit b (Roles_swapped Setter) \<in> set (snd (on_request_role_swap sid room st))))"
proof -
  have ok: "games_ok st" using assms by (rule reachable_games_ok)
  have noop: "on_request_role_swap sid room st = (st, [])"
    if n: "\<not> (\<exists>game. map_of (games st) room = Some game \<and> started game \<and> length (players game) = 2)"
  proof (cases "map_of (games st) room")
    case None
    then show ?thesis by (simp add: on_request_role_swap_def)
  next
    case (Some game)
    then have "game_ok game" using ok by (auto intro: games_ok_lookup)
    then have "started game \<Longrightarrow> length (players game) = 2" by (simp add: game_ok_def)
    with n Some have "\<not> started game" by auto
    then show ?thesis using Some by (simp add: on_request_role_swap_def)
  qed
  have succ: "(\<exists>x. map_of (games (fst (on_request_role_swap sid room st))) room =
                   Some (game\<lparr>players := rev (players game), secret := [], guesses := [],
                           feedbacks := [], started := False, locked := False,
                           setterSocketId := x\<rparr>))
          \<and> (players game = [Setter, Guesser] \<or> players game = [Guesser, Setter])
          \<and> map fst (games (fst (on_request_role_swap sid room st))) = map fst (games st)
          \<and> rooms (fst (on_request_role_swap sid room st)) = rooms st
          \<and> sockets (fst (on_request_role_swap sid room st)) = sockets st
          \<and> (\<forall>a b. (rooms st room = [a, b] \<or> rooms st room = [b, a]) \<and> a \<noteq> b \<and> b \<noteq> []
                   \<and> setterSocketId game = Some a \<longrightarrow>
                map_option setterSocketId
                  (map_of (games (fst (on_request_role_swap sid room st))) room) = Some (Some b)
              \<and> Emit a (Roles_swapped Guesser) \<in> set (snd (on_request_role_swap sid room st))
              \<and> Emit b (Roles_swapped Setter) \<in> set (snd (on_request_role_swap sid room st)))"
    if g: "map_of (games st) room = Some game" and s: "started game"
      and l: "length (players game) = 2" for game
  proof -
    have "game_ok game" using ok g by (auto intro: games_ok_lookup)
    then have seats: "players game = [Setter, Guesser] \<or> players game = [Guesser, Setter]"
      using l by (auto simp: game_ok_def seats_ok_def)
    have conn: "map_option setterSocketId
                  (map_of (games (fst (on_request_role_swap sid room st))) room) = Some (Some b)
              \<and> Emit a (Roles_swapped Guesser) \<in> set (snd (on_request_role_swap sid room st))
              \<and> Emit b (Roles_swapped Setter) \<in> set (snd (on_request_role_swap sid room st))"
      if "rooms st room = [a, b] \<or> rooms st room = [b, a]" "a \<noteq> b" "b \<noteq> []"
        "setterSocketId game = Some a" for a b
      unfolding swap_success [OF g s l] using that
      by (auto simp: update_conv' or_else_def first_of_def)
    show ?thesis
      using seats conn unfolding swap_success [OF g s l]
      by (simp add: update_conv' update_keys_present [OF g]) blast
  qed
  from noop succ show ?thesis by blast
qed

theorem role_swap_witness:
  "reachable (run trace_playing init)
   \<and> map_of (games (run trace_playing init)) ''ROOM01'' =
       Some \<lparr>secret = ''CRANE'', guesses = [], feedbacks = [], players = [Setter, Guesser],
             started = True, setterSocketId = Some ''alice'', locked = True\<rparr>
   \<and> rooms (run trace_playing init) ''ROOM01'' = [''alice'', ''bob'']
   \<and> map_option setterSocketId
       (map_of (games (fst (on_request_role_swap ''bob'' ''ROOM01'' (run trace_playing init))))
          ''ROOM01'') = Some (Some ''bob'')
   \<and> Emit ''alice'' (Roles_swapped Guesser)
       \<in> set (snd (on_request_role_swap ''bob'' ''ROOM01'' (run trace_playing init)))
   \<and> Emit ''bob'' (Roles_swapped Setter)
       \<in> set (snd (on_request_role_swap ''bob'' ''ROOM01'' (run trace_playing init)))
   \<and> on_request_role_swap ''bob'' ''NOROOM'' (run trace_playing init) =
       (run trace_playing init, [])"
proof -
  have r: "reachable (run trace_playing init)"
    by (rule reachable_run) (rule reachable_init)
  have h: "map_of (games (run trace_playing init)) ''ROOM01'' =
       Some \<lparr>secret = ''CRANE'', guesses = [], feedbacks = [], players = [Setter, Guesser],
             started = True, setterSocketId = Some ''alice'', locked = True\<rparr>"
    by code_simp
  have m: "rooms (run trace_playing init) ''ROOM01'' = [''alice'', ''bob'']"
    by code_simp
  have n: "map_of (games (run trace_playing init)) ''NOROOM'' = None"
    by code_simp
  have "on_request_role_swap ''bob'' ''NOROOM'' (run trace_playing init) =
       (run trace_playing init, [])"
    using role_swap [OF r, where room = "''NOROOM''" and sid = "''bob''"] n by simp
  moreover have "map_option setterSocketId
       (map_of (games (fst (on_request_role_swap ''bob'' ''ROOM01'' (run trace_playing init))))
          ''ROOM01'') = Some (Some ''bob'')
   \<and> Emit ''alice'' (Roles_swapped Guesser)
       \<in> set (snd (on_request_role_swap ''bob'' ''ROOM01'' (run trace_playing init)))
   \<and> Emit ''bob'' (Roles_swapped Setter)
       \<in> set (snd (on_request_role_swap ''bob'' ''ROOM01'' (run trace_playing init)))"
    using role_swap [OF r, where room = "''ROOM01''" and sid = "''bob''"] h m by simp
  ultimately show ?thesis using r h m by blast
qed

subsection \<open>Disconnecting\<close>

lemma disconnect_entry_other:
  "r \<noteq> room \<Longrightarrow> map_of (disconnect_entry sid mem (r, g) acc) room = map_of acc room"
  by (simp add: disconnect_entry_def Let_def update_conv' delete_conv')

lemma disconnect_fold_absent:
  "room \<notin> fst ` set es \<Longrightarrow>
   map_of (fold (disconnect_entry sid mem) es acc) room = map_of acc room"
proof (induction es arbitrary: acc)
  case Nil
  then show ?case by simp
next
  case (Cons e es)
  obtain r g where e: "e = (r, g)" by (cases e)
  with Cons.prems have "r \<noteq> room" and "room \<notin> fst ` set es" by auto
  then show ?case using Cons.IH [of "disconnect_entry sid mem e acc"]
    by (simp add: e disconnect_entry_other)
qed

lemma disconnect_fold_empty:
  "mem room = [] \<Longrightarrow> room \<in> fst ` set es \<or> map_of acc room = None \<Longrightarrow>
   map_of (fold (disconnect_entry sid mem) es acc) room = None"
proof (induction es arbitrary: acc)
  case Nil
  then show ?case by simp
next
  case (Cons e es)
  obtain r g where e: "e = (r, g)" by (cases e)
  show ?case
  proof (cases "r = room")
    case True
    then have "map_of (disconnect_entry sid mem e acc) room = None"
      using Cons.prems(1) by (simp add: e disconnect_entry_def delete_conv')
    then show ?thesis using Cons.IH [OF Cons.prems(1), of "disconnect_entry sid mem e acc"]
      by simp
  next
    case False
    then have "map_of (disconnect_entry sid mem e acc) room = map_of acc room"
      by (simp add: e disconnect_entry_other)
    moreover have "room \<in> fst ` set es \<or> map_of acc room = None"
      using Cons.prems(2) False by (auto simp: e)
    ultimately show ?thesis
      using Cons.IH [OF Cons.prems(1), of "disconnect_entry sid mem e acc"] by auto
  qed
qed

lemma disconnect_fold_lookup:
  "distinct (map fst es) \<Longrightarrow>
   map_of (fold (disconnect_entry sid mem) es acc) room =
     (case map_of es room of
        None \<Rightarrow> map_of acc room
      | Some game \<Rightarrow>
          if mem room = [] then None
          else if setterSocketId game = Some sid
          then Some (game\<lparr>setterSocketId := or_else (find (\<lambda>id. id \<noteq> sid) (mem room)) None\<rparr>)
          else map_of acc room)"
proof (induction es arbitrary: acc)
  case Nil
  then show ?case by simp
next
  case (Cons e es)
  obtain r g where e: "e = (r, g)" by (cases e)
  from Cons.prems have d: "distinct (map fst es)" and n: "r \<notin> fst ` set es"
    by (auto simp: e)
  show ?case
  proof (cases "r = room")
    case True
    with n have "map_of (fold (disconnect_entry sid mem) es (disconnect_entry sid mem e acc)) room =
            map_of (disconnect_entry sid mem e acc) room"
      by (simp add: disconnect_fold_absent)
    then show ?thesis using True
      by (simp add: e disconnect_entry_def Let_def update_conv' delete_conv')
  next
    case False
    then have o: "map_of (disconnect_entry sid mem e acc) room = map_of acc room"
      by (simp add: e disconnect_entry_other)
    have m: "map_of (e # es) room = map_of es room"
      using False by (simp add: e)
    have "map_of (fold (disconnect_entry sid mem) (e # es) acc) room =
          map_of (fold (disconnect_entry sid mem) es (disconnect_entry sid mem e acc)) room"
      by simp
    also have "\<dots> = (case map_of es room of
        None \<Rightarrow> map_of (disconnect_entry sid mem e acc) room
      | Some game \<Rightarrow>
          if mem room = [] then None
          else if setterSocketId game = Some sid
          then Some (game\<lparr>setterSocketId := or_else (find (\<lambda>id. id \<noteq> sid) (mem room)) None\<rparr>)
          else map_of (disconnect_entry sid mem e acc) room)"
      by (rule Cons.IH [OF d])
    finally show ?thesis unfolding o m .
  qed
qed

lemma step_absent:
  assumes "map_of (games st) room = None" and "\<not> creates room a"
  shows "map_of (games (fst (step a st))) room = None"
proof (cases a)
  case (Connect sid)
  then show ?thesis using assms by (simp add: step_def)
next
  case (Create sid r)
  then show ?thesis using assms
    by (simp add: step_def on_create_def socket_join_def Let_def update_conv')
next
  case (Join sid r)
  then show ?thesis using assms
    by (cases "map_of (games st) r")
       (auto simp: step_def on_join_def socket_join_def Let_def update_conv')
next
  case (Set_word sid r w)
  then show ?thesis using assms
    by (cases "map_of (games st) r")
       (auto simp: step_def on_set_word_def Let_def update_conv')
next
  case (Guess sid r w)
  then show ?thesis using assms
    by (cases "map_of (games st) r")
       (auto simp: step_def on_guess_def Let_def update_conv')
next
  case (Request_role_swap sid r)
  then show ?thesis using assms
    by (cases "map_of (games st) r")
       (auto simp: step_def on_request_role_swap_def Let_def update_conv')
next
  case (Disconnect sid)
  have "room \<notin> fst ` set (games st)"
    using assms(1) by (simp add: map_of_eq_None_iff)
  then show ?thesis using Disconnect assms(1)
    by (simp add: step_def on_disconnect_def socket_close_def disconnect_fold_absent)
qed

lemma run_absent:
  "map_of (games st) room = None \<Longrightarrow> list_all (\<lambda>a. \<not> creates room a) acts \<Longrightarrow>
   map_of (games (run acts st)) room = None"
  by (induction acts arbitrary: st) (auto simp: step_absent)

text \<open>
  Claim C8. When the only connection in a room disconnects, the room has no session
  afterwards, and it stays so along any later events that do not create the same code
  again: every join on the code then fails with "Room not found", sent to the caller, and
  every guess on the code changes nothing and sends nothing.
\<close>

theorem last_disconnect_removes_room:
  assumes "sid \<in> set (sockets st)" and "rooms st room = [sid]"
    and "list_all (\<lambda>a. \<not> creates room a) acts"
  shows "map_of (games (fst (step (Disconnect sid) st))) room = None
       \<and> map_of (games (run acts (fst (step (Disconnect sid) st)))) room = None
       \<and> on_join sid' room (run acts (fst (step (Disconnect sid) st))) =
           (run acts (fst (step (Disconnect sid) st)), [Emit sid' (Error_message ''Room not found'')])
       \<and> on_guess sid' room guess (run acts (fst (step (Disconnect sid) st))) =
           (run acts (fst (step (Disconnect sid) st)), [])"
proof -
  let ?st = "fst (step (Disconnect sid) st)"
  have "rooms (socket_close sid st) room = []"
    using assms(2) by (simp add: socket_close_def)
  moreover have "room \<in> fst ` set (games st) \<or> map_of (games st) room = None"
    by (auto simp: map_of_eq_None_iff)
  ultimately have gone: "map_of (games ?st) room = None"
    using assms(1) disconnect_fold_empty [of "rooms (socket_close sid st)" room "games st" "games st" sid]
    by (simp add: step_def on_disconnect_def socket_close_def)
  then have later: "map_of (games (run acts ?st)) room = None"
    using assms(3) by (rule run_absent)
  then show ?thesis using gone by (simp add: on_join_def on_guess_def)
qed

theorem last_disconnect_removes_room_witness:
  "''bob'' \<in> set (sockets (run trace_bob_alone init))
   \<and> rooms (run trace_bob_alone init) ''ROOM01'' = [''bob'']
   \<and> list_all (\<lambda>a. \<not> creates ''ROOM01'' a) [Connect ''carol'', Join ''carol'' ''ROOM01'']
   \<and> on_join ''carol'' ''ROOM01''
       (run [Connect ''carol'', Join ''carol'' ''ROOM01'']
          (fst (step (Disconnect ''bob'') (run trace_bob_alone init)))) =
       (run [Connect ''carol'', Join ''carol'' ''ROOM01'']
          (fst (step (Disconnect ''bob'') (run trace_bob_alone init))),
        [Emit ''carol'' (Error_message ''Room not found'')])"
proof -
  have s: "''bob'' \<in> set (sockets (run trace_bob_alone init))" by code_simp
  have m: "rooms (run trace_bob_alone init) ''ROOM01'' = [''bob'']" by code_simp
  have a: "list_all (\<lambda>a. \<not> creates ''ROOM01'' a) [Connect ''carol'', Join ''carol'' ''ROOM01'']"
    by simp
  show ?thesis
    using last_disconnect_removes_room [OF s m a, where sid' = "''carol''"] s m a by blast
qed

lemma step_seat:
  assumes ok: "games_ok st" and g: "map_of (games st) room = Some game"
    and s: "Guesser \<in> set (players game)" and c: "\<not> creates room a"
  shows "map_of (games (fst (step a st))) room = None
       \<or> (\<exists>game'. map_of (games (fst (step a st))) room = Some game'
             \<and> Guesser \<in> set (players game'))"
proof (cases a)
  case (Connect sid)
  then show ?thesis using g s by (simp add: step_def)
next
  case (Create sid r)
  then show ?thesis using g s c
    by (simp add: step_def on_create_def socket_join_def Let_def update_conv')
next
  case (Join sid r)
  then show ?thesis using g s
    by (cases "map_of (games st) r")
       (auto simp: step_def on_join_def socket_join_def Let_def update_conv')
next
  case (Set_word sid r w)
  then show ?thesis using g s
    by (cases "map_of (games st) r")
       (auto simp: step_def on_set_word_def Let_def update_conv')
next
  case (Guess sid r w)
  then show ?thesis using g s
    by (cases "map_of (games st) r")
       (auto simp: step_def on_guess_def Let_def update_conv')
next
  case (Request_role_swap sid r)
  show ?thesis
  proof (cases "r = room \<and> sid \<in> set (sockets st) \<and> started game")
    case True
    have "game_ok game" using ok g by (rule games_ok_lookup)
    then have l: "length (players game) = 2" using True by (simp add: game_ok_def)
    have "Guesser \<in> set (rev (players game))" using s by simp
    then show ?thesis using True Request_role_swap
      by (simp add: step_def swap_success [OF g _ l] update_conv')
  next
    case False
    then show ?thesis using Request_role_swap g s
      by (cases "map_of (games st) r")
         (auto simp: step_def on_request_role_swap_def Let_def update_conv')
  qed
next
  case (Disconnect sid)
  have "distinct (map fst (games st))" using ok by (simp add: games_ok_def)
  then show ?thesis using Disconnect g s
    by (simp add: step_def on_disconnect_def socket_close_def disconnect_fold_lookup)
qed

lemma run_seat:
  "games_ok st \<Longrightarrow> map_of (games st) room = Some game \<Longrightarrow> Guesser \<in> set (players game) \<Longrightarrow>
   list_all (\<lambda>a. \<not> creates room a) acts \<Longrightarrow>
   map_of (games (run acts st)) room = None
   \<or> (\<exists>game'. map_of (games (run acts st)) room = Some game' \<and> Guesser \<in> set (players game'))"
proof (induction acts arbitrary: st game)
  case Nil
  then show ?case by simp
next
  case (Cons a acts)
  then have c: "\<not> creates room a" and cs: "list_all (\<lambda>a. \<not> creates room a) acts" by auto
  have ok': "games_ok (fst (step a st))" using Cons.prems(1) by (rule step_ok)
  from step_seat [OF Cons.prems(1,2,3) c] show ?case
  proof
    assume "map_of (games (fst (step a st))) room = None"
    then show ?thesis using cs by (simp add: run_absent)
  next
    assume "\<exists>game'. map_of (games (fst (step a st))) room = Some game'
             \<and> Guesser \<in> set (players game')"
    then obtain game' where "map_of (games (fst (step a st))) room = Some game'"
      and "Guesser \<in> set (players game')" by blast
    from Cons.IH [OF ok' this cs] show ?thesis by simp
  qed
qed

text \<open>
  Claim C9, as amended. On a registry with unique room codes the \<^verbatim>\<open>disconnect\<close> handler
  sends nothing and leaves rooms and connections alone; a session is deleted exactly when
  its room is empty, and a surviving session is as before, except that \<open>setterSocketId\<close>
  is reassigned when the departing connection was the setter. Hence after a connection
  leaves a room that stays non-empty and whose guesser seat was taken, a join on the room
  fails with "Room full"; and in a state whose sessions are well-formed this remains so
  after any later events that do not create the code again, for as long as the session
  exists.
\<close>

theorem disconnect_frame:
  assumes "distinct (map fst (games st))"
  shows "rooms (fst (on_disconnect sid st)) = rooms st
       \<and> sockets (fst (on_disconnect sid st)) = sockets st
       \<and> snd (on_disconnect sid st) = []
       \<and> (\<forall>room. map_of (games (fst (on_disconnect sid st))) room =
            (case map_of (games st) room of
               None \<Rightarrow> None
             | Some game \<Rightarrow>
                 if rooms st room = [] then None
                 else if setterSocketId game = Some sid
                 then Some (game\<lparr>setterSocketId :=
                              or_else (find (\<lambda>id. id \<noteq> sid) (rooms st room)) None\<rparr>)
                 else Some game))
       \<and> (\<forall>room game sid'. sid \<in> set (sockets st) \<and> map_of (games st) room = Some game
             \<and> Guesser \<in> set (players game) \<and> removeAll sid (rooms st room) \<noteq> [] \<longrightarrow>
            on_join sid' room (fst (step (Disconnect sid) st)) =
              (fst (step (Disconnect sid) st), [Emit sid' (Error_message ''Room full'')])
          \<and> (\<forall>acts. games_ok st \<and> list_all (\<lambda>a. \<not> creates room a) acts
                 \<and> map_of (games (run acts (fst (step (Disconnect sid) st)))) room \<noteq> None \<longrightarrow>
                on_join sid' room (run acts (fst (step (Disconnect sid) st))) =
                  (run acts (fst (step (Disconnect sid) st)),
                   [Emit sid' (Error_message ''Room full'')])))"
proof -
  note dist = assms
  have look: "map_of (games (fst (on_disconnect sid s))) room =
            (case map_of (games s) room of
               None \<Rightarrow> None
             | Some game \<Rightarrow>
                 if rooms s room = [] then None
                 else if setterSocketId game = Some sid
                 then Some (game\<lparr>setterSocketId :=
                              or_else (find (\<lambda>id. id \<noteq> sid) (rooms s room)) None\<rparr>)
                 else Some game)" if "distinct (map fst (games s))" for s room
    using disconnect_fold_lookup [OF that, of sid "rooms s" "games s" room]
    by (auto simp: on_disconnect_def split: option.splits)
  have full: "on_join sid' room (fst (step (Disconnect sid) st)) =
              (fst (step (Disconnect sid) st), [Emit sid' (Error_message ''Room full'')])
          \<and> (\<forall>acts. games_ok st \<and> list_all (\<lambda>a. \<not> creates room a) acts
                 \<and> map_of (games (run acts (fst (step (Disconnect sid) st)))) room \<noteq> None \<longrightarrow>
                on_join sid' room (run acts (fst (step (Disconnect sid) st))) =
                  (run acts (fst (step (Disconnect sid) st)),
                   [Emit sid' (Error_message ''Room full'')]))"
    if p1: "sid \<in> set (sockets st)" and p2: "map_of (games st) room = Some game"
      and p3: "Guesser \<in> set (players game)" and p4: "removeAll sid (rooms st room) \<noteq> []"
    for room game sid'
  proof -
    let ?c = "socket_close sid st"
    let ?st = "fst (step (Disconnect sid) st)"
    have d: "distinct (map fst (games ?c))" using dist by (simp add: socket_close_def)
    have "\<exists>g'. map_of (games (fst (on_disconnect sid ?c))) room = Some g' \<and> players g' = players game"
      unfolding look [OF d] using p1 p2 p3 p4 by (simp add: socket_close_def)
    then obtain g' where g': "map_of (games ?st) room = Some g'" and p: "Guesser \<in> set (players g')"
      using p1 p3 by (auto simp: step_def)
    have now: "on_join sid' room ?st = (?st, [Emit sid' (Error_message ''Room full'')])"
      using g' p by (simp add: on_join_def)
    have later: "on_join sid' room (run acts ?st) =
                  (run acts ?st, [Emit sid' (Error_message ''Room full'')])"
      if q0: "games_ok st" and q1: "list_all (\<lambda>a. \<not> creates room a) acts"
        and q2: "map_of (games (run acts ?st)) room \<noteq> None" for acts
      using run_seat [OF step_ok [OF q0] g' p q1] q2 by (auto simp: on_join_def)
    from now later show ?thesis by blast
  qed
  show ?thesis using look [OF dist] full by (simp add: on_disconnect_def)
qed

theorem disconnect_frame_witness:
  "distinct (map fst (games (run trace_playing init)))
   \<and> games_ok (run trace_playing init)
   \<and> ''bob'' \<in> set (sockets (run trace_playing init))
   \<and> map_of (games (run trace_playing init)) ''ROOM01'' =
       Some \<lparr>secret = ''CRANE'', guesses = [], feedbacks = [], players = [Setter, Guesser],
             started = True, setterSocketId = Some ''alice'', locked = True\<rparr>
   \<and> removeAll ''bob'' (rooms (run trace_playing init) ''ROOM01'') \<noteq> []
   \<and> on_join ''carol'' ''ROOM01'' (fst (step (Disconnect ''bob'') (run trace_playing init))) =
       (fst (step (Disconnect ''bob'') (run trace_playing init)),
        [Emit ''carol'' (Error_message ''Room full'')])
   \<and> on_join ''carol'' ''ROOM01''
       (run [Connect ''carol'', Request_role_swap ''alice'' ''ROOM01'']
          (fst (step (Disconnect ''bob'') (run trace_playing init)))) =
       (run [Connect ''carol'', Request_role_swap ''alice'' ''ROOM01'']
          (fst (step (Disconnect ''bob'') (run trace_playing init))),
        [Emit ''carol'' (Error_message ''Room full'')])"
proof -
  have ok: "games_ok (run trace_playing init)"
    by (intro reachable_games_ok reachable_run reachable_init)
  then have d: "distinct (map fst (games (run trace_playing init)))"
    by (simp add: games_ok_def)
  have s: "''bob'' \<in> set (sockets (run trace_playing init))" by code_simp
  have h: "map_of (games (run trace_playing init)) ''ROOM01'' =
       Some \<lparr>secret = ''CRANE'', guesses = [], feedbacks = [], players = [Setter, Guesser],
             started = True, setterSocketId = Some ''alice'', locked = True\<rparr>"
    by code_simp
  have m: "removeAll ''bob'' (rooms (run trace_playing init) ''ROOM01'') \<noteq> []" by code_simp
  have a: "list_all (\<lambda>a. \<not> creates ''ROOM01'' a)
             [Connect ''carol'', Request_role_swap ''alice'' ''ROOM01'']"
    by simp
  have e: "map_of (games (run [Connect ''carol'', Request_role_swap ''alice'' ''ROOM01'']
             (fst (step (Disconnect ''bob'') (run trace_playing init))))) ''ROOM01'' \<noteq> None"
    by code_simp
  have gs: "Guesser \<in> set (players \<lparr>secret = ''CRANE'', guesses = [], feedbacks = [],
              players = [Setter, Guesser], started = True, setterSocketId = Some ''alice'',
              locked = True\<rparr>)"
    by simp
  have "on_join ''carol'' ''ROOM01'' (fst (step (Disconnect ''bob'') (run trace_playing init))) =
       (fst (step (Disconnect ''bob'') (run trace_playing init)),
        [Emit ''carol'' (Error_message ''Room full'')])
   \<and> on_join ''carol'' ''ROOM01''
       (run [Connect ''carol'', Request_role_swap ''alice'' ''ROOM01'']
          (fst (step (Disconnect ''bob'') (run trace_playing init)))) =
       (run [Connect ''carol'', Request_role_swap ''alice'' ''ROOM01'']
          (fst (step (Disconnect ''bob'') (run trace_playing init))),
        [Emit ''carol'' (Error_message ''Room full'')])"
    using disconnect_frame [OF d, where sid = "''bob''"] ok s h gs m a e by blast
  then show ?thesis using ok d s h m by blast
qed

text \<open>
  Claim C9 as stated fails: not every later join answers "Room full". In the running
  round the guesser Bob leaves the room, which stays non-empty; then Alice leaves, the
  session is deleted, and a join answers "Room not found".
\<close>

theorem guesser_left_counterexample:
  "map_of (games (run trace_playing init)) ''ROOM01'' =
     Some \<lparr>secret = ''CRANE'', guesses = [], feedbacks = [], players = [Setter, Guesser],
           started = True, setterSocketId = Some ''alice'', locked = True\<rparr>
   \<and> removeAll ''bob'' (rooms (run trace_playing init) ''ROOM01'') = [''alice'']
   \<and> snd (on_join ''carol'' ''ROOM01''
            (run [Disconnect ''bob'', Disconnect ''alice'', Connect ''carol'']
               (run trace_playing init))) =
       [Emit ''carol'' (Error_message ''Room not found'')]"
proof -
  have "map_of (games (run trace_playing init)) ''ROOM01'' =
     Some \<lparr>secret = ''CRANE'', guesses = [], feedbacks = [], players = [Setter, Guesser],
           started = True, setterSocketId = Some ''alice'', locked = True\<rparr>"
    by code_simp
  moreover have "removeAll ''bob'' (rooms (run trace_playing init) ''ROOM01'') = [''alice'']"
    by code_simp
  moreover have "snd (on_join ''carol'' ''ROOM01''
            (run [Disconnect ''bob'', Disconnect ''alice'', Connect ''carol'']
               (run trace_playing init))) =
       [Emit ''carol'' (Error_message ''Room not found'')]"
    by code_simp
  ultimately show ?thesis by blast
qed

subsection \<open>Guesses after the round is over\<close>

text \<open>
  Claim C2 as stated fails: the state after the seventh guess is reachable and its session
  holds seven guesses.
\<close>

theorem guesses_exceed_six_counterexample:
  "reachable (run trace_seven init)
   \<and> map_option (\<lambda>g. length (guesses g)) (map_of (games (run trace_seven init)) ''ROOM01'') = Some 7"
proof -
  have "reachable (run trace_seven init)"
    by (rule reachable_run) (rule reachable_init)
  moreover have "map_option (\<lambda>g. length (guesses g)) (map_of (games (run trace_seven init)) ''ROOM01'') = Some 7"
    by code_simp
  ultimately show ?thesis by blast
qed

lemma step_no_secret_some:
  assumes ok: "games_ok st" and g: "map_of (games st) room = Some game"
    and s: "secret game = []" and l: "\<not> locks room a" and c: "\<not> creates room a"
  shows "map_of (games (fst (step a st))) room = None
       \<or> (\<exists>game'. map_of (games (fst (step a st))) room = Some game' \<and> secret game' = [])"
proof (cases a)
  case (Connect sid)
  then show ?thesis using g s by (simp add: step_def)
next
  case (Create sid r)
  then show ?thesis using g s c
    by (simp add: step_def on_create_def socket_join_def Let_def update_conv')
next
  case (Join sid r)
  then show ?thesis using g s
    by (cases "map_of (games st) r")
       (auto simp: step_def on_join_def socket_join_def Let_def update_conv')
next
  case (Set_word sid r w)
  then have "r \<noteq> room" using l by simp
  then show ?thesis using g s Set_word
    by (cases "map_of (games st) r")
       (auto simp: step_def on_set_word_def Let_def update_conv')
next
  case (Guess sid r w)
  then show ?thesis using g s
    by (cases "map_of (games st) r")
       (auto simp: step_def on_guess_def Let_def update_conv')
next
  case (Request_role_swap sid r)
  then show ?thesis using g s
    by (cases "map_of (games st) r")
       (auto simp: step_def on_request_role_swap_def Let_def update_conv')
next
  case (Disconnect sid)
  have "distinct (map fst (games st))" using ok by (simp add: games_ok_def)
  then show ?thesis using Disconnect g s
    by (simp add: step_def on_disconnect_def socket_close_def disconnect_fold_lookup)
qed

lemma step_no_secret:
  assumes ok: "games_ok st" and ns: "no_secret st room"
    and l: "\<not> locks room a" and c: "\<not> creates room a"
  shows "no_secret (fst (step a st)) room"
proof (cases "map_of (games st) room")
  case None
  then have "map_of (games (fst (step a st))) room = None" using c by (rule step_absent)
  then show ?thesis by (simp add: no_secret_def)
next
  case (Some game)
  then have "secret game = []" using ns by (simp add: no_secret_def)
  from step_no_secret_some [OF ok Some this l c] show ?thesis
  proof
    assume "map_of (games (fst (step a st))) room = None"
    then show ?thesis by (simp add: no_secret_def)
  next
    assume "\<exists>game'. map_of (games (fst (step a st))) room = Some game' \<and> secret game' = []"
    then obtain game' where "map_of (games (fst (step a st))) room = Some game'"
      and "secret game' = []" by blast
    then show ?thesis by (simp add: no_secret_def)
  qed
qed

lemma run_no_secret:
  "games_ok st \<Longrightarrow> no_secret st room \<Longrightarrow>
   list_all (\<lambda>a. \<not> locks room a \<and> \<not> creates room a) acts \<Longrightarrow>
   no_secret (run acts st) room"
proof (induction acts arbitrary: st)
  case Nil
  then show ?case by simp
next
  case (Cons a acts)
  then have a: "\<not> locks room a" "\<not> creates room a"
    and r: "list_all (\<lambda>a. \<not> locks room a \<and> \<not> creates room a) acts" by auto
  have k: "games_ok (fst (step a st))" using Cons.prems(1) by (rule step_ok)
  have n: "no_secret (fst (step a st)) room"
    using Cons.prems(1,2) a by (rule step_no_secret)
  from Cons.IH [OF k n r] show ?case by simp
qed

lemma guess_without_secret:
  "no_secret st room \<Longrightarrow> on_guess sid room guess st = (st, [])"
  by (cases "map_of (games st) room") (auto simp: on_guess_def no_secret_def)

text \<open>
  Claim C2, as amended. In every reachable state the guesses and the feedback history of a
  session have the same length, with no bound of six. The guess operation leaves the
  state unchanged and sends nothing when the session has no secret, is not started, or
  the guess is ASCII and not five letters; otherwise, also after a fully correct guess or
  the sixth guess, it appends the guess and its feedback row. A role swap on a started
  session resets both histories to empty, and from then on every guess on the room is
  dropped, along any events, until a word is set on the room or the code is created again.
\<close>

theorem guesses_unbounded_until_swap:
  assumes "reachable st" and "map_of (games st) room = Some game"
  shows "length (feedbacks game) = length (guesses game)
       \<and> (secret game = [] \<or> \<not> started game
            \<or> (ascii guess \<and> \<not> five_letters (toUpperCase guess)) \<longrightarrow>
            on_guess sid room guess st = (st, []))
       \<and> (secret game \<noteq> [] \<and> started game \<and> five_letters (toUpperCase guess) \<longrightarrow>
            map_of (games (fst (on_guess sid room guess st))) room =
              Some (game\<lparr>guesses := guesses game @ [toUpperCase guess],
                      feedbacks := feedbacks game @ [evaluate (toUpperCase guess) (secret game)]\<rparr>))
       \<and> (started game \<longrightarrow>
            map_option guesses (map_of (games (fst (on_request_role_swap sid room st))) room) = Some []
          \<and> map_option feedbacks (map_of (games (fst (on_request_role_swap sid room st))) room) = Some []
          \<and> (\<forall>acts sid' guess'.
                list_all (\<lambda>a. \<not> locks room a \<and> \<not> creates room a) acts \<longrightarrow>
                on_guess sid' room guess' (run acts (fst (on_request_role_swap sid room st))) =
                  (run acts (fst (on_request_role_swap sid room st)), [])))"
proof -
  have oks: "games_ok st" using assms(1) by (rule reachable_games_ok)
  then have ok: "game_ok game" using assms(2) by (rule games_ok_lookup)
  then have len: "length (feedbacks game) = length (guesses game)"
    by (simp add: game_ok_def)
  have drop: "secret game = [] \<or> \<not> started game
            \<or> (ascii guess \<and> \<not> five_letters (toUpperCase guess)) \<longrightarrow>
            on_guess sid room guess st = (st, [])"
    using assms(2) by (auto simp: on_guess_def Let_def)
  have app: "secret game \<noteq> [] \<and> started game \<and> five_letters (toUpperCase guess) \<longrightarrow>
            map_of (games (fst (on_guess sid room guess st))) room =
              Some (game\<lparr>guesses := guesses game @ [toUpperCase guess],
                      feedbacks := feedbacks game @ [evaluate (toUpperCase guess) (secret game)]\<rparr>)"
    using assms(2) by (auto simp: on_guess_def Let_def update_conv')
  have swap: "started game \<longrightarrow>
            map_option guesses (map_of (games (fst (on_request_role_swap sid room st))) room) = Some []
          \<and> map_option feedbacks (map_of (games (fst (on_request_role_swap sid room st))) room) = Some []
          \<and> (\<forall>acts sid' guess'.
                list_all (\<lambda>a. \<not> locks room a \<and> \<not> creates room a) acts \<longrightarrow>
                on_guess sid' room guess' (run acts (fst (on_request_role_swap sid room st))) =
                  (run acts (fst (on_request_role_swap sid room st)), []))"
  proof (rule impI)
    assume s: "started game"
    let ?st = "fst (on_request_role_swap sid room st)"
    have l: "length (players game) = 2" using ok s by (simp add: game_ok_def)
    have reset: "map_option guesses (map_of (games ?st) room) = Some []
        \<and> map_option feedbacks (map_of (games ?st) room) = Some []"
      unfolding swap_success [OF assms(2) s l] by (simp add: update_conv')
    have ns: "no_secret ?st room"
      unfolding swap_success [OF assms(2) s l] by (simp add: no_secret_def update_conv')
    have ok': "games_ok ?st" using oks by (rule on_request_role_swap_ok)
    have later: "\<forall>acts sid' guess'.
        list_all (\<lambda>a. \<not> locks room a \<and> \<not> creates room a) acts \<longrightarrow>
        on_guess sid' room guess' (run acts ?st) = (run acts ?st, [])"
    proof (intro allI impI)
      fix acts sid' guess'
      assume "list_all (\<lambda>a. \<not> locks room a \<and> \<not> creates room a) acts"
      then have "no_secret (run acts ?st) room"
        by (rule run_no_secret [OF ok' ns])
      then show "on_guess sid' room guess' (run acts ?st) = (run acts ?st, [])"
        by (rule guess_without_secret)
    qed
    from reset later
    show "map_option guesses (map_of (games ?st) room) = Some []
        \<and> map_option feedbacks (map_of (games ?st) room) = Some []
        \<and> (\<forall>acts sid' guess'.
              list_all (\<lambda>a. \<not> locks room a \<and> \<not> creates room a) acts \<longrightarrow>
              on_guess sid' room guess' (run acts ?st) = (run acts ?st, []))"
      by (intro conjI) simp_all
  qed
  show ?thesis by (intro conjI) (rule len drop app swap)+
qed

theorem guesses_unbounded_until_swap_witness:
  "reachable (run trace_six init)
   \<and> map_of (games (run trace_six init)) ''ROOM01'' =
       Some \<lparr>secret = ''CRANE'', guesses = replicate 6 ''SLATE'',
             feedbacks = replicate 6 [Absent, Absent, Correct, Absent, Correct],
             players = [Setter, Guesser], started = True, setterSocketId = Some ''alice'',
             locked = True\<rparr>
   \<and> five_letters (toUpperCase ''slate'')
   \<and> map_option guesses
       (map_of (games (fst (on_guess ''bob'' ''ROOM01'' ''slate'' (run trace_six init)))) ''ROOM01'') =
       Some (replicate 6 ''SLATE'' @ [toUpperCase ''slate''])
   \<and> ascii ''slat3'' \<and> \<not> five_letters (toUpperCase ''slat3'')
   \<and> on_guess ''bob'' ''ROOM01'' ''slat3'' (run trace_six init) = (run trace_six init, [])
   \<and> map_option guesses
       (map_of (games (fst (on_request_role_swap ''bob'' ''ROOM01'' (run trace_six init)))) ''ROOM01'') =
       Some []
   \<and> list_all (\<lambda>a. \<not> locks ''ROOM01'' a \<and> \<not> creates ''ROOM01'' a)
        [Guess ''alice'' ''ROOM01'' ''SLATE'', Join ''bob'' ''ROOM01'']
   \<and> on_guess ''alice'' ''ROOM01'' ''CRANE''
       (run [Guess ''alice'' ''ROOM01'' ''SLATE'', Join ''bob'' ''ROOM01'']
          (fst (on_request_role_swap ''bob'' ''ROOM01'' (run trace_six init)))) =
       (run [Guess ''alice'' ''ROOM01'' ''SLATE'', Join ''bob'' ''ROOM01'']
          (fst (on_request_role_swap ''bob'' ''ROOM01'' (run trace_six init))), [])"
proof -
  let ?g = "\<lparr>secret = ''CRANE'', guesses = replicate 6 ''SLATE'',
             feedbacks = replicate 6 [Absent, Absent, Correct, Absent, Correct],
             players = [Setter, Guesser], started = True, setterSocketId = Some ''alice'',
             locked = True\<rparr>"
  have r: "reachable (run trace_six init)"
    by (rule reachable_run) (rule reachable_init)
  have h: "map_of (games (run trace_six init)) ''ROOM01'' = Some ?g"
    by code_simp
  have w: "five_letters (toUpperCase ''slate'')" by code_simp
  have a: "ascii ''slat3''" by code_simp
  have n: "\<not> five_letters (toUpperCase ''slat3'')" by code_simp
  have e: "list_all (\<lambda>a. \<not> locks ''ROOM01'' a \<and> \<not> creates ''ROOM01'' a)
        [Guess ''alice'' ''ROOM01'' ''SLATE'', Join ''bob'' ''ROOM01'']"
    by simp
  have g: "secret ?g \<noteq> []" "started ?g" "guesses ?g = replicate 6 ''SLATE''" by simp_all
  have "map_option guesses
       (map_of (games (fst (on_guess ''bob'' ''ROOM01'' ''slate'' (run trace_six init)))) ''ROOM01'') =
       Some (replicate 6 ''SLATE'' @ [toUpperCase ''slate''])"
    using guesses_unbounded_until_swap [OF r h, where guess = "''slate''" and sid = "''bob''"] w g
    by simp
  moreover have "on_guess ''bob'' ''ROOM01'' ''slat3'' (run trace_six init) = (run trace_six init, [])"
    using guesses_unbounded_until_swap [OF r h, where guess = "''slat3''" and sid = "''bob''"] a n
    by blast
  moreover have "map_option guesses
       (map_of (games (fst (on_request_role_swap ''bob'' ''ROOM01'' (run trace_six init)))) ''ROOM01'') =
       Some []
   \<and> on_guess ''alice'' ''ROOM01'' ''CRANE''
       (run [Guess ''alice'' ''ROOM01'' ''SLATE'', Join ''bob'' ''ROOM01'']
          (fst (on_request_role_swap ''bob'' ''ROOM01'' (run trace_six init)))) =
       (run [Guess ''alice'' ''ROOM01'' ''SLATE'', Join ''bob'' ''ROOM01'']
          (fst (on_request_role_swap ''bob'' ''ROOM01'' (run trace_six init))), [])"
    using guesses_unbounded_until_swap [OF r h, where guess = "''slate''" and sid = "''bob''"] g(2) e
    by blast
  ultimately show ?thesis using r h w a n e by blast
qed

end
